theory Spec2Isabelle
  imports Main "HOL-Library.Sublist"
begin

section \<open>Task records\<close>

text \<open>
  The classes \<open>Task\<close> and \<open>CategorizedTask\<close> behind the interface \<open>TaskBase\<close>.
  Each constructor takes its arguments in the order of the C++ constructor:
  \<open>Task(t, d, c)\<close> and \<open>CategorizedTask(t, d, cat, c)\<close>.
\<close>

datatype TaskBase =
    Task string string bool
  | CategorizedTask string string string bool

fun getTitle :: "TaskBase \<Rightarrow> string" where
  "getTitle (Task t d c) = t"
| "getTitle (CategorizedTask t d cat c) = t"

fun getDeadline :: "TaskBase \<Rightarrow> string" where
  "getDeadline (Task t d c) = d"
| "getDeadline (CategorizedTask t d cat c) = d"

fun getCategory :: "TaskBase \<Rightarrow> string" where
  "getCategory (Task t d c) = []"
| "getCategory (CategorizedTask t d cat c) = cat"

fun isCompleted :: "TaskBase \<Rightarrow> bool" where
  "isCompleted (Task t d c) = c"
| "isCompleted (CategorizedTask t d cat c) = c"

text \<open>\<open>Task::markCompleted\<close>: sets the flag of the object.\<close>

fun Task_markCompleted :: "TaskBase \<Rightarrow> TaskBase" where
  "Task_markCompleted (Task t d c) = Task t d True"
| "Task_markCompleted (CategorizedTask t d cat c) = CategorizedTask t d cat True"

fun toFileString :: "TaskBase \<Rightarrow> string" where
  "toFileString (Task t d c) = t @ '';'' @ d @ '';'' @ (if c then ''1'' else ''0'')"
| "toFileString (CategorizedTask t d cat c) =
     t @ '';'' @ d @ '';'' @ (if c then ''1'' else ''0'') @ '';'' @ cat"

text \<open>
  \<open>std::left << std::setw(n) << s\<close>: the text is filled with spaces on the right up to
  \<open>n\<close> characters; a longer text is written whole.
\<close>

definition setw_left :: "nat \<Rightarrow> string \<Rightarrow> string" where
  "setw_left n s = s @ replicate (n - length s) (CHR '' '')"

text \<open>\<open>display\<close> writes one line to the console; the model returns the text written.\<close>

fun display :: "TaskBase \<Rightarrow> string" where
  "display (Task t d c) =
     (if c then ''[X] '' else ''[ ] '') @ setw_left 20 t @ '' | Due: '' @ setw_left 12 d
       @ [CHR 0x0A]"
| "display (CategorizedTask t d cat c) =
     (if c then ''[X] '' else ''[ ] '') @ setw_left 20 t @ '' | Due: '' @ setw_left 12 d
       @ '' | Category: '' @ cat @ [CHR 0x0A]"

section \<open>Input streams and \<open>getline\<close>\<close>

text \<open>
  An input stream is the text not yet read and the two state bits that \<open>getline\<close>
  reads and sets. A stream whose file could not be opened starts with \<open>failbit\<close> set.
\<close>

record istream =
  buf :: string
  eofbit :: bool
  failbit :: bool

definition istringstream :: "string \<Rightarrow> istream" where
  "istringstream s = \<lparr>buf = s, eofbit = False, failbit = False\<rparr>"

text \<open>\<open>std::ifstream ifs(filename)\<close>: \<open>None\<close> is a file that cannot be opened.\<close>

definition ifstream :: "string option \<Rightarrow> istream" where
  "ifstream f = (case f of
       None \<Rightarrow> \<lparr>buf = [], eofbit = False, failbit = True\<rparr>
     | Some s \<Rightarrow> \<lparr>buf = s, eofbit = False, failbit = False\<rparr>)"

text \<open>
  The characters up to the delimiter, and the text after the delimiter when there is one.
\<close>

fun extract_until :: "char \<Rightarrow> string \<Rightarrow> string \<times> string option" where
  "extract_until d [] = ([], None)"
| "extract_until d (c # cs) =
     (if c = d then ([], Some cs)
      else (case extract_until d cs of (a, r) \<Rightarrow> (c # a, r)))"

text \<open>
  \<open>std::getline(is, str, delim)\<close>, returning the stream, the string and the truth value
  of the stream afterwards. When the stream is not good on entry the string is left as
  it was and \<open>failbit\<close> is set. Otherwise the string is erased and filled up to the
  delimiter, which is consumed; reaching the end of the text sets \<open>eofbit\<close>, and
  \<open>failbit\<close> too when nothing was extracted.
\<close>

definition getline :: "istream \<Rightarrow> string \<Rightarrow> char \<Rightarrow> istream \<times> string \<times> bool" where
  "getline is str delim =
     (if eofbit is \<or> failbit is then (is\<lparr>failbit := True\<rparr>, str, False)
      else (case extract_until delim (buf is) of
              (a, Some rest) \<Rightarrow> (is\<lparr>buf := rest\<rparr>, a, True)
            | (a, None) \<Rightarrow>
                (is\<lparr>buf := [], eofbit := True, failbit := (a = [])\<rparr>, a, a \<noteq> [])))"

section \<open>Deadline keys\<close>

datatype fault = Invalid_argument | Out_of_range | Dangling_pointer

definition isspace :: "char \<Rightarrow> bool" where
  "isspace c = (c = CHR '' '' \<or> (9 \<le> (of_char c :: nat) \<and> (of_char c :: nat) \<le> 13))"

definition isdigit :: "char \<Rightarrow> bool" where
  "isdigit c = (48 \<le> (of_char c :: nat) \<and> (of_char c :: nat) \<le> 57)"

definition digit_value :: "char \<Rightarrow> nat" where
  "digit_value c = of_char c - 48"

text \<open>
  The digit loop of \<open>strtol\<close> in base 10: it stops at the first character that is not a
  digit. The accumulator is unbounded; the range check is made by \<open>stoi\<close> below.
\<close>

fun strtol_digits :: "nat \<Rightarrow> string \<Rightarrow> nat" where
  "strtol_digits acc [] = acc"
| "strtol_digits acc (c # cs) =
     (if isdigit c then strtol_digits (10 * acc + digit_value c) cs else acc)"

fun skip_space :: "string \<Rightarrow> string" where
  "skip_space [] = []"
| "skip_space (c # cs) = (if isspace c then skip_space cs else c # cs)"

definition INT_MAX :: int where "INT_MAX = 2147483647"

definition INT_MIN :: int where "INT_MIN = - 2147483648"

text \<open>
  \<open>std::stoi(s)\<close>: leading white space is skipped, one sign is accepted, then the digits
  are read. No digit at all throws \<open>std::invalid_argument\<close>; a value that does not fit
  an \<open>int\<close> throws \<open>std::out_of_range\<close>. Text after the digits is ignored.
\<close>

definition stoi_signed :: "bool \<Rightarrow> string \<Rightarrow> fault + int" where
  "stoi_signed neg s = (case s of
       [] \<Rightarrow> Inl Invalid_argument
     | c # cs \<Rightarrow>
         if \<not> isdigit c then Inl Invalid_argument
         else (let v = (if neg then - int (strtol_digits 0 s) else int (strtol_digits 0 s))
               in if v < INT_MIN \<or> INT_MAX < v then Inl Out_of_range else Inr v))"

definition stoi :: "string \<Rightarrow> fault + int" where
  "stoi s = (case skip_space s of
       [] \<Rightarrow> Inl Invalid_argument
     | c # cs \<Rightarrow>
         if c = CHR ''-'' then stoi_signed True cs
         else if c = CHR ''+'' then stoi_signed False cs
         else stoi_signed False (c # cs))"

text \<open>
  \<open>TaskManager::dateToInt\<close>: three \<open>getline\<close> calls on the dot, a zero put before a day
  or month of one character, and \<open>stoi\<close> of year, month and day put together.
\<close>

definition dateToInt :: "string \<Rightarrow> fault + int" where
  "dateToInt date =
     (case getline (istringstream date) [] (CHR ''.'') of (ss1, day, ok1) \<Rightarrow>
      case getline ss1 [] (CHR ''.'') of (ss2, month, ok2) \<Rightarrow>
      case getline ss2 [] (CHR ''.'') of (ss3, year, ok3) \<Rightarrow>
        (let day' = (if length day = 1 then ''0'' @ day else day);
             month' = (if length month = 1 then ''0'' @ month else month)
         in stoi (year @ month' @ day')))"

section \<open>The task manager and the free store\<close>

text \<open>
  The manager holds pointers. An address is a number; \<open>heap\<close> gives the object at an
  address (\<open>None\<close> once it is deleted or before it is allocated) and \<open>next_addr\<close> is
  the address the next \<open>new\<close> returns. No address is handed out twice; as the manager
  keeps no pointer to an object it has deleted (\<open>wf\<close> below), this cannot be told from
  an allocator that uses an address again. The four other fields are the members of
  \<open>TaskManager\<close>.
\<close>

type_synonym addr = nat

record state =
  heap :: "addr \<rightharpoonup> TaskBase"
  next_addr :: addr
  tasks :: "addr list"
  completedTasks :: "addr list"
  titleMap :: "string \<rightharpoonup> addr"
  categories :: "string set"

text \<open>A manager as \<open>main\<close> declares it: nothing allocated, every container empty.\<close>

definition init :: state where
  "init = \<lparr>heap = Map.empty, next_addr = 0, tasks = [], completedTasks = [],
            titleMap = Map.empty, categories = {}\<rparr>"

definition new :: "TaskBase \<Rightarrow> state \<Rightarrow> addr \<times> state" where
  "new t w = (next_addr w, w\<lparr>heap := (heap w)(next_addr w \<mapsto> t), next_addr := Suc (next_addr w)\<rparr>)"

text \<open>Reading through a pointer whose object is gone is a fault.\<close>

definition addTask :: "addr \<Rightarrow> state \<Rightarrow> fault + state" where
  "addTask task w = (case heap w task of
       None \<Rightarrow> Inl Dangling_pointer
     | Some t \<Rightarrow> Inr (w\<lparr>tasks := tasks w @ [task],
                        titleMap := (titleMap w)(getTitle t \<mapsto> task),
                        categories := (if getCategory t \<noteq> [] then insert (getCategory t) (categories w)
                                       else categories w)\<rparr>))"

definition markCompleted :: "string \<Rightarrow> state \<Rightarrow> fault + state" where
  "markCompleted title w = (case titleMap w title of
       None \<Rightarrow> Inr w
     | Some p \<Rightarrow> (case heap w p of
         None \<Rightarrow> Inl Dangling_pointer
       | Some t \<Rightarrow> Inr (w\<lparr>heap := (heap w)(p \<mapsto> Task_markCompleted t),
                          completedTasks := completedTasks w @ [p],
                          tasks := removeAll p (tasks w),
                          titleMap := (titleMap w)(title := None)\<rparr>)))"

definition deleteTask :: "string \<Rightarrow> state \<Rightarrow> fault + state" where
  "deleteTask title w = (case titleMap w title of
       None \<Rightarrow> Inr w
     | Some task \<Rightarrow> (case heap w task of
         None \<Rightarrow> Inl Dangling_pointer
       | Some t \<Rightarrow> Inr (w\<lparr>tasks := removeAll task (tasks w),
                          heap := (heap w)(task := None),
                          titleMap := (titleMap w)(title := None)\<rparr>)))"

subsection \<open>Listing and searching\<close>

text \<open>The loop \<open>for (t : ps) t->display()\<close>; the result is the texts written, in order.\<close>

fun display_all :: "state \<Rightarrow> addr list \<Rightarrow> fault + string list" where
  "display_all w [] = Inr []"
| "display_all w (p # ps) = (case heap w p of
       None \<Rightarrow> Inl Dangling_pointer
     | Some t \<Rightarrow> (case display_all w ps of
         Inl e \<Rightarrow> Inl e
       | Inr out \<Rightarrow> Inr (display t # out)))"

text \<open>The comparison given to \<open>std::sort\<close>; an exception of \<open>dateToInt\<close> leaves it.\<close>

definition deadline_less :: "state \<Rightarrow> addr \<Rightarrow> addr \<Rightarrow> fault + bool" where
  "deadline_less w a b = (case heap w a of
       None \<Rightarrow> Inl Dangling_pointer
     | Some ta \<Rightarrow> (case heap w b of
         None \<Rightarrow> Inl Dangling_pointer
       | Some tb \<Rightarrow> (case dateToInt (getDeadline ta) of
           Inl e \<Rightarrow> Inl e
         | Inr x \<Rightarrow> (case dateToInt (getDeadline tb) of
             Inl e \<Rightarrow> Inl e
           | Inr y \<Rightarrow> Inr (x < y)))))"

text \<open>
  \<open>std::sort\<close> belongs to the C++ library, which fixes neither the algorithm nor the
  order of elements that compare equal. It is modelled by an insertion sort that passes
  on an exception of the comparison.
\<close>

fun sort_insert :: "('a \<Rightarrow> 'a \<Rightarrow> fault + bool) \<Rightarrow> 'a \<Rightarrow> 'a list \<Rightarrow> fault + 'a list" where
  "sort_insert lt x [] = Inr [x]"
| "sort_insert lt x (y # ys) = (case lt y x of
       Inl e \<Rightarrow> Inl e
     | Inr b \<Rightarrow> if b then (case sort_insert lt x ys of Inl e \<Rightarrow> Inl e | Inr r \<Rightarrow> Inr (y # r))
              else Inr (x # y # ys))"

fun std_sort :: "('a \<Rightarrow> 'a \<Rightarrow> fault + bool) \<Rightarrow> 'a list \<Rightarrow> fault + 'a list" where
  "std_sort lt [] = Inr []"
| "std_sort lt (x # xs) = (case std_sort lt xs of
       Inl e \<Rightarrow> Inl e
     | Inr s \<Rightarrow> sort_insert lt x s)"

definition viewTasks :: "bool \<Rightarrow> state \<Rightarrow> fault + string list" where
  "viewTasks sorted_flag w =
     (if sorted_flag then (case std_sort (deadline_less w) (tasks w) of
                        Inl e \<Rightarrow> Inl e
                      | Inr temp \<Rightarrow> display_all w temp)
      else display_all w (tasks w))"

definition viewCompleted :: "state \<Rightarrow> fault + string list" where
  "viewCompleted w = display_all w (completedTasks w)"

text \<open>\<open>s.find(q)\<close>: the first position at which \<open>q\<close> occurs in \<open>s\<close>; \<open>None\<close> is \<open>npos\<close>.\<close>

fun string_find :: "string \<Rightarrow> string \<Rightarrow> nat option" where
  "string_find [] q = (if q = [] then Some 0 else None)"
| "string_find (c # cs) q =
     (if prefix q (c # cs) then Some 0 else map_option Suc (string_find cs q))"

fun searchTask_loop :: "state \<Rightarrow> string \<Rightarrow> addr list \<Rightarrow> fault + string list" where
  "searchTask_loop w query [] = Inr []"
| "searchTask_loop w query (p # ps) = (case heap w p of
       None \<Rightarrow> Inl Dangling_pointer
     | Some t \<Rightarrow> (case searchTask_loop w query ps of
         Inl e \<Rightarrow> Inl e
       | Inr out \<Rightarrow> Inr (if string_find (getTitle t) query \<noteq> None then display t # out else out)))"

definition searchTask :: "string \<Rightarrow> state \<Rightarrow> fault + string list" where
  "searchTask query w = searchTask_loop w query (tasks w)"

subsection \<open>The commands of the menu that change the manager\<close>

text \<open>
  Choice 1 of \<open>main\<close> allocates a \<open>Task\<close> when the category read is empty and a
  \<open>CategorizedTask\<close> otherwise, and adds it; choices 4 and 5 pass the title read to
  \<open>markCompleted\<close> and \<open>deleteTask\<close>.
\<close>

datatype command =
    Add string string string
  | Complete string
  | Delete string

definition menu_task :: "string \<Rightarrow> string \<Rightarrow> string \<Rightarrow> TaskBase" where
  "menu_task title deadline category =
     (if category = [] then Task title deadline False
      else CategorizedTask title deadline category False)"

fun exec :: "command \<Rightarrow> state \<Rightarrow> fault + state" where
  "exec (Add title deadline category) w =
     (case new (menu_task title deadline category) w of (p, w') \<Rightarrow> addTask p w')"
| "exec (Complete title) w = markCompleted title w"
| "exec (Delete title) w = deleteTask title w"

fun run :: "command list \<Rightarrow> state \<Rightarrow> fault + state" where
  "run [] w = Inr w"
| "run (c # cs) w = (case exec c w of Inl e \<Rightarrow> Inl e | Inr w' \<Rightarrow> run cs w')"

section \<open>Saving and loading\<close>

text \<open>
  A file system gives the text of each file that exists and tells which paths can be
  opened for writing. An output stream that failed to open has \<open>ofailbit\<close> set and
  ignores what is written to it.
\<close>

record filesystem =
  files :: "string \<rightharpoonup> string"
  writable :: "string \<Rightarrow> bool"

record ostream =
  obuf :: string
  ofailbit :: bool

definition ofstream :: "filesystem \<Rightarrow> string \<Rightarrow> ostream" where
  "ofstream fs filename = \<lparr>obuf = [], ofailbit = \<not> writable fs filename\<rparr>"

definition put :: "ostream \<Rightarrow> string \<Rightarrow> ostream" where
  "put ofs s = (if ofailbit ofs then ofs else ofs\<lparr>obuf := obuf ofs @ s\<rparr>)"

text \<open>What the file system holds once the stream is closed.\<close>

definition close :: "filesystem \<Rightarrow> string \<Rightarrow> ostream \<Rightarrow> filesystem" where
  "close fs filename ofs =
     (if ofailbit ofs then fs else fs\<lparr>files := (files fs)(filename \<mapsto> obuf ofs)\<rparr>)"

text \<open>
  The two loops of \<open>saveToFile\<close>: each record is written as \<open>pre\<close>, its file string
  and a line end, where \<open>pre\<close> is empty for the active records and \<open>DONE:\<close> for the
  completed ones.
\<close>

fun save_loop :: "string \<Rightarrow> state \<Rightarrow> addr list \<Rightarrow> ostream \<Rightarrow> fault + ostream" where
  "save_loop pre w [] ofs = Inr ofs"
| "save_loop pre w (p # ps) ofs = (case heap w p of
       None \<Rightarrow> Inl Dangling_pointer
     | Some t \<Rightarrow> save_loop pre w ps (put (put (put ofs pre) (toFileString t)) [CHR 0x0A]))"

text \<open>
  \<open>saveToFile\<close> returns nothing and throws nothing of its own: the result is the file
  system afterwards, or the fault of a pointer whose object is gone.
\<close>

definition saveToFile :: "string \<Rightarrow> state \<Rightarrow> filesystem \<Rightarrow> fault + filesystem" where
  "saveToFile filename w fs =
     (case save_loop [] w (tasks w) (ofstream fs filename) of
        Inl e \<Rightarrow> Inl e
      | Inr ofs1 \<Rightarrow> (case save_loop ''DONE:'' w (completedTasks w) ofs1 of
          Inl e \<Rightarrow> Inl e
        | Inr ofs2 \<Rightarrow> Inr (close fs filename ofs2)))"

text \<open>
  The body of the loop of \<open>loadFromFile\<close> for one line read. \<open>line.rfind("DONE:", 0) == 0\<close>
  holds exactly when the line starts with \<open>DONE:\<close>.
\<close>

definition load_line :: "string \<Rightarrow> state \<Rightarrow> fault + state" where
  "load_line line0 w =
     (let isDone = prefix ''DONE:'' line0;
          line = (if isDone then drop 5 line0 else line0)
      in case getline (istringstream line) [] (CHR '';'') of (ss1, title, ok1) \<Rightarrow>
         case getline ss1 [] (CHR '';'') of (ss2, deadline, ok2) \<Rightarrow>
         case getline ss2 [] (CHR '';'') of (ss3, completedStr, ok3) \<Rightarrow>
         (let completed = (completedStr = ''1'')
          in case getline ss3 [] (CHR '';'') of (ss4, category, ok4) \<Rightarrow>
             if ok4
             then (case new (CategorizedTask title deadline category completed) w of (t, w') \<Rightarrow>
                     if isDone then Inr (w'\<lparr>completedTasks := completedTasks w' @ [t]\<rparr>)
                     else addTask t w')
             else (case new (Task title deadline completed) w of (t, w') \<Rightarrow>
                     if isDone then Inr (w'\<lparr>completedTasks := completedTasks w' @ [t]\<rparr>)
                     else addTask t w')))"

text \<open>
  The loop \<open>while (getline(ifs, line))\<close>. The text left in \<open>line\<close> by the body is never
  read again: the next \<open>getline\<close> replaces it or ends the loop.
\<close>

function loadFromFile_loop :: "istream \<Rightarrow> string \<Rightarrow> state \<Rightarrow> fault + state" where
  "loadFromFile_loop ifs line w =
     (case getline ifs line (CHR 0x0A) of (ifs', line', ok) \<Rightarrow>
        if \<not> ok then Inr w
        else (case load_line line' w of
                Inl e \<Rightarrow> Inl e
              | Inr w' \<Rightarrow> loadFromFile_loop ifs' line' w'))"
  by pat_completeness auto

definition stream_left :: "istream \<Rightarrow> nat" where
  "stream_left is = (if eofbit is \<or> failbit is then 0 else Suc (length (buf is)))"

termination loadFromFile_loop
proof -
  have rest: "length r < length s" if "extract_until d s = (a, Some r)" for d s a r
    using that by (induction s arbitrary: a) (auto split: if_splits prod.splits)
  have left: "stream_left is' < stream_left is" if "getline is str d = (is', str', True)"
    for "is" str d is' str'
    using that
    by (auto simp: getline_def stream_left_def split: if_splits prod.splits option.splits
             dest: rest)
  show ?thesis
    by (relation "measure (\<lambda>(is, line, w). stream_left is)") (auto intro: left [OF sym])
qed

definition loadFromFile :: "string \<Rightarrow> filesystem \<Rightarrow> state \<Rightarrow> fault + state" where
  "loadFromFile filename fs w = loadFromFile_loop (ifstream (files fs filename)) [] w"

section \<open>Descriptions used in the statements\<close>

text \<open>
  The \<open>n\<close>-th field of a text cut at its dots, counted from 0; a field that is missing
  is empty.
\<close>

fun field :: "nat \<Rightarrow> string \<Rightarrow> string" where
  "field 0 s = takeWhile (\<lambda>c. c \<noteq> CHR ''.'') s"
| "field (Suc n) s =
     (case dropWhile (\<lambda>c. c \<noteq> CHR ''.'') s of [] \<Rightarrow> [] | c # r \<Rightarrow> field n r)"

definition pad2 :: "string \<Rightarrow> string" where
  "pad2 s = (if length s = 1 then ''0'' @ s else s)"

text \<open>Year, month and day put together, as \<open>dateToInt\<close> hands them to \<open>stoi\<close>.\<close>

definition key_text :: "string \<Rightarrow> string" where
  "key_text d = field 2 d @ pad2 (field 1 d) @ pad2 (field 0 d)"

definition decimal :: "string \<Rightarrow> nat" where
  "decimal ds = foldl (\<lambda>a c. 10 * a + digit_value c) 0 ds"

text \<open>
  The integer a text begins with: white space, then at most one sign, then at least one
  digit. \<open>None\<close> when there is no digit at that place.
\<close>

definition leading_int :: "string \<Rightarrow> int option" where
  "leading_int s =
     (let b = dropWhile isspace s;
          neg = (b \<noteq> [] \<and> hd b = CHR ''-'');
          r = (if b \<noteq> [] \<and> (hd b = CHR ''-'' \<or> hd b = CHR ''+'') then tl b else b);
          ds = takeWhile isdigit r
      in if ds = [] then None
         else Some (if neg then - int (decimal ds) else int (decimal ds)))"

text \<open>
  The specification's wording: a deadline that parses as three dot-separated numeric
  fields.
\<close>

definition numeric_field :: "string \<Rightarrow> bool" where
  "numeric_field s = (s \<noteq> [] \<and> list_all isdigit s)"

definition three_numeric_fields :: "string \<Rightarrow> bool" where
  "three_numeric_fields d =
     (length (filter (\<lambda>c. c = CHR ''.'') d) = 2 \<and> numeric_field (field 0 d)
      \<and> numeric_field (field 1 d) \<and> numeric_field (field 2 d))"

text \<open>The deadline key of the record behind a pointer, where there is one.\<close>

definition deadline_key :: "state \<Rightarrow> addr \<Rightarrow> int" where
  "deadline_key w p = (case heap w p of
       None \<Rightarrow> 0
     | Some t \<Rightarrow> (case dateToInt (getDeadline t) of Inl e \<Rightarrow> 0 | Inr k \<Rightarrow> k))"

section \<open>Pointers and the objects behind them\<close>

text \<open>
  The records behind a list of pointers, in order; \<open>None\<close> when one of the pointers
  has no object.
\<close>

fun objects :: "state \<Rightarrow> addr list \<Rightarrow> TaskBase list option" where
  "objects w [] = Some []"
| "objects w (p # ps) = (case heap w p of
       None \<Rightarrow> None
     | Some t \<Rightarrow> map_option ((#) t) (objects w ps))"

text \<open>
  What the manager keeps true from the empty state on, under the commands of the menu:
  every pointer it holds has an object, objects lie below \<open>next_addr\<close>, no pointer is
  both active and completed, and an entry of the title map leads to an active record
  that carries the title of the entry.
\<close>

definition wf :: "state \<Rightarrow> bool" where
  "wf w = (set (tasks w) \<subseteq> dom (heap w) \<and> set (completedTasks w) \<subseteq> dom (heap w)
     \<and> dom (heap w) \<subseteq> {..<next_addr w}
     \<and> set (tasks w) \<inter> set (completedTasks w) = {}
     \<and> (\<forall>k p. titleMap w k = Some p \<longrightarrow>
           p \<in> set (tasks w) \<and> (\<exists>t. heap w p = Some t \<and> getTitle t = k)))"

text \<open>Every pointer the manager holds lies below the next address.\<close>

definition below :: "state \<Rightarrow> bool" where
  "below w = (set (tasks w) \<union> set (completedTasks w) \<subseteq> {..<next_addr w})"

section \<open>Descriptions of states and runs\<close>

text \<open>Whether a command adds a task with the given title.\<close>

fun adds_title :: "string \<Rightarrow> command \<Rightarrow> bool" where
  "adds_title t (Add t' d c) = (t' = t)"
| "adds_title t (Complete t') = False"
| "adds_title t (Delete t') = False"

text \<open>The record \<open>r\<close> at \<open>p\<close> is in the completed list and not in the active list.\<close>

definition retired :: "addr \<Rightarrow> TaskBase \<Rightarrow> state \<Rightarrow> bool" where
  "retired p r w = (p \<in> set (completedTasks w) \<and> p \<notin> set (tasks w) \<and> heap w p = Some r)"

text \<open>The record \<open>r\<close> at \<open>p\<close> is active, and no entry of the title map leads to it.\<close>

definition shadowed :: "addr \<Rightarrow> TaskBase \<Rightarrow> state \<Rightarrow> bool" where
  "shadowed p r w = (p \<in> set (tasks w) \<and> heap w p = Some r \<and> (\<forall>k. titleMap w k \<noteq> Some p))"

text \<open>The record is shown by the plain listing and by a search for its title.\<close>

definition listed :: "TaskBase \<Rightarrow> state \<Rightarrow> bool" where
  "listed r w = ((\<exists>out. viewTasks False w = Inr out \<and> display r \<in> set out)
     \<and> (\<exists>out. searchTask (getTitle r) w = Inr out \<and> display r \<in> set out))"

text \<open>The commands that add the given (title, deadline, category) triples in order.\<close>

definition adds :: "(string \<times> string \<times> string) list \<Rightarrow> command list" where
  "adds xs = map (\<lambda>(t, d, c). Add t d c) xs"

text \<open>Position \<open>p\<close> holds the last of the triples that has the title \<open>t\<close>.\<close>

definition last_with :: "string \<Rightarrow> (string \<times> string \<times> string) list \<Rightarrow> nat \<Rightarrow> bool" where
  "last_with t xs p = (p < length xs \<and> fst (xs ! p) = t
     \<and> (\<forall>q. p < q \<and> q < length xs \<longrightarrow> fst (xs ! q) \<noteq> t))"

section \<open>Descriptions of saved files\<close>

text \<open>
  A text that holds neither the field separator nor a line end, and a record whose
  title, deadline and category are such texts.
\<close>

definition plain_text :: "string \<Rightarrow> bool" where
  "plain_text s = (CHR '';'' \<notin> set s \<and> CHR 0x0A \<notin> set s)"

definition storable :: "TaskBase \<Rightarrow> bool" where
  "storable t = (plain_text (getTitle t) \<and> plain_text (getDeadline t) \<and> plain_text (getCategory t))"

text \<open>
  The record that loading builds for the line of a record: a \<open>CategorizedTask\<close> whose
  category is empty comes back as a \<open>Task\<close>; the four fields, collected by \<open>fields\<close>,
  are the same.
\<close>

definition reloaded :: "TaskBase \<Rightarrow> TaskBase" where
  "reloaded t = (if getCategory t = [] then Task (getTitle t) (getDeadline t) (isCompleted t)
     else CategorizedTask (getTitle t) (getDeadline t) (getCategory t) (isCompleted t))"

definition fields :: "TaskBase \<Rightarrow> string \<times> string \<times> bool \<times> string" where
  "fields t = (getTitle t, getDeadline t, isCompleted t, getCategory t)"

text \<open>The lines that \<open>saveToFile\<close> writes for the active and the completed records.\<close>

definition file_lines :: "TaskBase list \<Rightarrow> TaskBase list \<Rightarrow> string list" where
  "file_lines ts cs = map toFileString ts @ map (\<lambda>t. ''DONE:'' @ toFileString t) cs"

text \<open>The body of the loop of \<open>loadFromFile\<close> applied to a list of lines in turn.\<close>

fun load_lines :: "string list \<Rightarrow> state \<Rightarrow> fault + state" where
  "load_lines [] w = Inr w"
| "load_lines (l # ls) w = (case load_line l w of Inl e \<Rightarrow> Inl e | Inr w' \<Rightarrow> load_lines ls w')"

section \<open>Deadline keys: what the conversion returns\<close>

lemma takeWhile_whole: "\<forall>x\<in>set s. P x \<Longrightarrow> takeWhile P s = s"
  by simp

lemma dropWhile_whole: "\<forall>x\<in>set s. P x \<Longrightarrow> dropWhile P s = []"
  by simp

lemma extract_until_eq:
  "extract_until d s = (takeWhile (\<lambda>c. c \<noteq> d) s,
     case dropWhile (\<lambda>c. c \<noteq> d) s of [] \<Rightarrow> None | c # r \<Rightarrow> Some r)"
  by (induction s) auto

lemma getline_good:
  "getline \<lparr>buf = s, eofbit = False, failbit = False\<rparr> str d =
     (case dropWhile (\<lambda>c. c \<noteq> d) s of
        [] \<Rightarrow> (\<lparr>buf = [], eofbit = True, failbit = (s = [])\<rparr>, s, s \<noteq> [])
      | c # r \<Rightarrow> (\<lparr>buf = r, eofbit = False, failbit = False\<rparr>, takeWhile (\<lambda>c. c \<noteq> d) s, True))"
proof (cases "dropWhile (\<lambda>c. c \<noteq> d) s")
  case Nil
  then show ?thesis
    by (simp add: getline_def extract_until_eq takeWhile_whole dropWhile_whole)
next
  case (Cons c r)
  then show ?thesis
    by (simp add: getline_def extract_until_eq del: dropWhile_eq_Nil_conv)
qed

lemma getline_eof:
  "getline \<lparr>buf = s, eofbit = True, failbit = f\<rparr> str d =
     (\<lparr>buf = s, eofbit = True, failbit = True\<rparr>, str, False)"
  by (simp add: getline_def)

lemma skip_space_eq: "skip_space s = dropWhile isspace s"
  by (induction s) auto

lemma strtol_digits_eq:
  "strtol_digits acc s = foldl (\<lambda>a c. 10 * a + digit_value c) acc (takeWhile isdigit s)"
  by (induction s arbitrary: acc) auto

lemma stoi_signed_eq:
  "stoi_signed neg s =
     (if takeWhile isdigit s = [] then Inl Invalid_argument
      else (let v = (if neg then - int (decimal (takeWhile isdigit s))
                     else int (decimal (takeWhile isdigit s)))
            in if v < INT_MIN \<or> INT_MAX < v then Inl Out_of_range else Inr v))"
  by (cases s) (auto simp: stoi_signed_def strtol_digits_eq decimal_def Let_def)

lemma stoi_eq:
  "stoi s = (case leading_int s of
       None \<Rightarrow> Inl Invalid_argument
     | Some v \<Rightarrow> if v < INT_MIN \<or> INT_MAX < v then Inl Out_of_range else Inr v)"
proof (cases "dropWhile isspace s")
  case Nil
  then show ?thesis
    by (simp add: stoi_def skip_space_eq leading_int_def del: dropWhile_eq_Nil_conv)
next
  case (Cons c cs)
  have "\<not> isdigit (CHR ''-'')" "\<not> isdigit (CHR ''+'')"
    by (simp_all add: isdigit_def)
  with Cons show ?thesis
    by (simp add: stoi_def skip_space_eq leading_int_def stoi_signed_eq Let_def
             del: dropWhile_eq_Nil_conv)
qed

lemmas key_simps = dateToInt_def istringstream_def getline_good getline_eof key_text_def
  pad2_def eval_nat_numeral takeWhile_whole dropWhile_whole

lemma dateToInt_key_text: "dateToInt d = stoi (key_text d)"
proof (cases "dropWhile (\<lambda>c. c \<noteq> CHR ''.'') d")
  case Nil
  then show ?thesis
    by (simp add: key_simps)
next
  case d1: (Cons c r1)
  show ?thesis
  proof (cases "dropWhile (\<lambda>c. c \<noteq> CHR ''.'') r1")
    case Nil
    with d1 show ?thesis
      by (simp add: key_simps)
  next
    case d2: (Cons c' r2)
    show ?thesis
    proof (cases "dropWhile (\<lambda>c. c \<noteq> CHR ''.'') r2")
      case Nil
      with d1 d2 show ?thesis
        by (simp add: key_simps)
    next
      case (Cons c'' r3)
      with d1 d2 show ?thesis
        by (simp add: key_simps)
    qed
  qed
qed

lemma menu_task_fields [simp]:
  "getTitle (menu_task t d c) = t"
  "getDeadline (menu_task t d c) = d"
  "getCategory (menu_task t d c) = c"
  "isCompleted (menu_task t d c) = False"
  by (simp_all add: menu_task_def)

lemmas date_defs = dateToInt_def getline_def istringstream_def stoi_def stoi_signed_def
  isdigit_def isspace_def digit_value_def INT_MAX_def INT_MIN_def

lemma key_1_1_2024: "dateToInt ''1.1.2024'' = Inr 20240101"
  by (simp add: date_defs)

lemma key_15_03_2023: "dateToInt ''15.03.2023'' = Inr 20230315"
  by (simp add: date_defs)

lemma key_02_02_2024: "dateToInt ''02.02.2024'' = Inr 20240202"
  by (simp add: date_defs)

text \<open>
  C2, as the code has it. The keys of the three deadlines are 20240101, 20230315 and
  20240202, so the listing sorted by deadline shows 15.03.2023 first, then 1.1.2024, then
  02.02.2024, whatever the titles and categories of the three tasks are.
\<close>

theorem sorted_listing_of_three_deadlines:
  "\<exists>w. run [Add t1 ''1.1.2024'' c1, Add t2 ''15.03.2023'' c2, Add t3 ''02.02.2024'' c3] init
         = Inr w
     \<and> dateToInt ''15.03.2023'' = Inr 20230315
     \<and> dateToInt ''1.1.2024'' = Inr 20240101
     \<and> dateToInt ''02.02.2024'' = Inr 20240202
     \<and> viewTasks True w = Inr [display (menu_task t2 ''15.03.2023'' c2),
                                display (menu_task t1 ''1.1.2024'' c1),
                                display (menu_task t3 ''02.02.2024'' c3)]"
  by (simp add: init_def new_def addTask_def viewTasks_def deadline_less_def
        key_1_1_2024 key_15_03_2023 key_02_02_2024)

text \<open>
  C2 as it is written puts 02.02.2024 before 1.1.2024. With the three tasks added in the
  order of the claim, the comparison of the sort says that 02.02.2024 is not before
  1.1.2024, and the sorted listing is not the one claimed.
\<close>

theorem claimed_order_of_three_deadlines_refuted:
  "(case run [Add ''A'' ''1.1.2024'' [], Add ''B'' ''15.03.2023'' [],
              Add ''C'' ''02.02.2024'' []] init of
      Inl e \<Rightarrow> False
    | Inr w \<Rightarrow>
        deadline_less w 2 0 = Inr False
        \<and> viewTasks True w \<noteq> Inr [display (Task ''B'' ''15.03.2023'' False),
                                      display (Task ''C'' ''02.02.2024'' False),
                                      display (Task ''A'' ''1.1.2024'' False)])"
  by (simp add: init_def new_def addTask_def viewTasks_def deadline_less_def menu_task_def
        key_1_1_2024 key_15_03_2023 key_02_02_2024 setw_left_def)

text \<open>
  C3, as the code has it. The conversion returns the integer that the text made of year,
  padded month and padded day begins with, when there is one and it fits an \<open>int\<close>. It
  fails with \<open>Invalid_argument\<close> exactly when that text begins with no integer, and with
  \<open>Out_of_range\<close> exactly when the integer does not fit. Whether the deadline has three
  fields, and what follows the digits, plays no part.
\<close>

theorem dateToInt_result:
  "dateToInt d = (case leading_int (key_text d) of
       None \<Rightarrow> Inl Invalid_argument
     | Some v \<Rightarrow> if v < INT_MIN \<or> INT_MAX < v then Inl Out_of_range else Inr v)"
  by (simp add: dateToInt_key_text stoi_eq)

text \<open>
  C3 as it is written fails: \<open>2024\<close> is not three dot-separated numeric fields, and the
  conversion returns 2024 for it.
\<close>

theorem dateToInt_accepts_one_field:
  "\<not> three_numeric_fields ''2024'' \<and> dateToInt ''2024'' = Inr 2024"
  by (simp add: three_numeric_fields_def date_defs)

section \<open>The sorted listing\<close>

text \<open>With a comparison that never fails, the model of \<open>std::sort\<close> sorts by the key.\<close>

lemma sort_insert_total:
  "sort_insert (\<lambda>a b. Inr (f a < f b)) x ys = Inr (insort_key f x ys)"
  for f :: "'a \<Rightarrow> int"
  by (induction ys) auto

lemma std_sort_total:
  "std_sort (\<lambda>a b. Inr (f a < f b)) xs = Inr (sort_key f xs)"
  for f :: "'a \<Rightarrow> int"
  by (induction xs) (simp_all add: sort_insert_total sort_key_def)

lemma sort_insert_cong:
  "\<forall>y\<in>set ys. lt y x = lt' y x \<Longrightarrow> sort_insert lt x ys = sort_insert lt' x ys"
  by (induction ys) (auto split: sum.splits)

lemma sort_insert_set: "sort_insert lt x ys = Inr zs \<Longrightarrow> set zs = insert x (set ys)"
proof (induction ys arbitrary: zs)
  case Nil
  then show ?case by auto
next
  case (Cons y ys)
  show ?case
  proof (cases "lt y x")
    case (Inl e)
    with Cons.prems show ?thesis by simp
  next
    case (Inr b)
    show ?thesis
    proof (cases b)
      case True
      with Inr Cons.prems obtain r where r: "sort_insert lt x ys = Inr r" "zs = y # r"
        by (auto split: sum.splits)
      from Cons.IH [OF r(1)] r(2) show ?thesis by auto
    next
      case False
      with Inr Cons.prems show ?thesis by auto
    qed
  qed
qed

lemma std_sort_set: "std_sort lt xs = Inr ys \<Longrightarrow> set ys = set xs"
proof (induction xs arbitrary: ys)
  case Nil
  then show ?case by simp
next
  case (Cons x xs)
  then obtain s where s: "std_sort lt xs = Inr s" "sort_insert lt x s = Inr ys"
    by (auto split: sum.splits)
  from Cons.IH [OF s(1)] sort_insert_set [OF s(2)] show ?case by simp
qed

lemma std_sort_cong:
  "\<forall>a\<in>set xs. \<forall>b\<in>set xs. lt a b = lt' a b \<Longrightarrow> std_sort lt xs = std_sort lt' xs"
proof (induction xs)
  case Nil
  show ?case by simp
next
  case (Cons x xs)
  then have ih: "std_sort lt xs = std_sort lt' xs" by simp
  show ?case
  proof (cases "std_sort lt' xs")
    case (Inl e)
    with ih show ?thesis by simp
  next
    case (Inr s)
    from std_sort_set [OF Inr] Cons.prems have "\<forall>y\<in>set s. lt y x = lt' y x" by simp
    from sort_insert_cong [of s lt x lt', OF this] ih Inr show ?thesis by simp
  qed
qed

text \<open>
  When every active record has a deadline that converts, the sorted listing displays the
  active records in the order of their keys. Where all keys differ this is the result of
  every sorting algorithm; records with equal keys are kept in their order here, which
  the library does not promise.
\<close>

lemma viewTasks_sorted:
  assumes "\<forall>p\<in>set (tasks w). \<exists>t k. heap w p = Some t \<and> dateToInt (getDeadline t) = Inr k"
  shows "viewTasks True w = display_all w (sort_key (deadline_key w) (tasks w))"
proof -
  have "\<forall>a\<in>set (tasks w). \<forall>b\<in>set (tasks w).
          deadline_less w a b = Inr (deadline_key w a < deadline_key w b)"
  proof (intro ballI)
    fix a b assume "a \<in> set (tasks w)" "b \<in> set (tasks w)"
    with assms obtain ta ka tb kb where
      "heap w a = Some ta" "dateToInt (getDeadline ta) = Inr ka"
      "heap w b = Some tb" "dateToInt (getDeadline tb) = Inr kb" by blast
    then show "deadline_less w a b = Inr (deadline_key w a < deadline_key w b)"
      by (simp add: deadline_less_def deadline_key_def)
  qed
  from std_sort_cong [of "tasks w" "deadline_less w"
         "\<lambda>a b. Inr (deadline_key w a < deadline_key w b)", OF this]
  have "std_sort (deadline_less w) (tasks w) = Inr (sort_key (deadline_key w) (tasks w))"
    by (simp add: std_sort_total)
  then show ?thesis by (simp add: viewTasks_def)
qed

section \<open>Saving to a path that cannot be opened\<close>

lemma save_loop_failed:
  "ofailbit ofs \<Longrightarrow> objects w ps = Some ts \<Longrightarrow> save_loop pre w ps ofs = Inr ofs"
  by (induction ps arbitrary: ts) (auto simp: put_def split: option.splits)

text \<open>
  C4, as the code has it. When the path cannot be opened for writing, \<open>saveToFile\<close>
  returns normally: it reports no error and leaves the file system as it was. (The
  pointers of the manager are taken to have objects.)
\<close>

theorem saveToFile_unwritable:
  "\<not> writable fs filename \<Longrightarrow> objects w (tasks w) = Some ts
   \<Longrightarrow> objects w (completedTasks w) = Some cs \<Longrightarrow> saveToFile filename w fs = Inr fs"
  by (simp add: saveToFile_def ofstream_def save_loop_failed close_def)

theorem saveToFile_unwritable_witness:
  "\<not> writable \<lparr>files = Map.empty, writable = (\<lambda>p. False)\<rparr> ''tasks.txt''
   \<and> objects init (tasks init) = Some []
   \<and> objects init (completedTasks init) = Some []
   \<and> saveToFile ''tasks.txt'' init \<lparr>files = Map.empty, writable = (\<lambda>p. False)\<rparr>
       = Inr \<lparr>files = Map.empty, writable = (\<lambda>p. False)\<rparr>"
  using saveToFile_unwritable [of "\<lparr>files = Map.empty, writable = (\<lambda>p. False)\<rparr>"
          "''tasks.txt''" init "[]" "[]"]
  by (simp add: init_def)

text \<open>
  C4 as it is written fails: with one task in the store and a path that cannot be
  opened, \<open>saveToFile\<close> does not end in an error; it returns, and nothing is written.
\<close>

theorem saveToFile_reports_nothing:
  "(case run [Add ''Report'' ''10.10.2024'' ''Work''] init of
      Inl e \<Rightarrow> False
    | Inr w \<Rightarrow>
        \<not> writable \<lparr>files = Map.empty, writable = (\<lambda>p. False)\<rparr> ''tasks.txt''
        \<and> saveToFile ''tasks.txt'' w \<lparr>files = Map.empty, writable = (\<lambda>p. False)\<rparr>
            = Inr \<lparr>files = Map.empty, writable = (\<lambda>p. False)\<rparr>)"
  by (simp add: init_def new_def addTask_def saveToFile_def ofstream_def put_def close_def)

section \<open>Loading a completed line\<close>

text \<open>
  C8. Loading a file whose only line is \<open>DONE:Report;10.10.2024;1;Work\<close>, with or
  without a line end after it, into the empty manager gives no active task, one
  completed record with the title \<open>Report\<close>, an empty title map and no category. More
  generally a line that starts with \<open>DONE:\<close> adds one pointer to the completed list and
  changes neither the active list nor the title map nor the categories.
\<close>

theorem load_done_line:
  "loadFromFile fn (fs\<lparr>files := (files fs)(fn \<mapsto> ''DONE:Report;10.10.2024;1;Work'')\<rparr>) init
     = Inr \<lparr>heap = [0 \<mapsto> CategorizedTask ''Report'' ''10.10.2024'' ''Work'' True],
            next_addr = 1, tasks = [], completedTasks = [0], titleMap = Map.empty,
            categories = {}\<rparr>
   \<and> loadFromFile fn
         (fs\<lparr>files := (files fs)(fn \<mapsto> ''DONE:Report;10.10.2024;1;Work'' @ [CHR 0x0A])\<rparr>) init
     = Inr \<lparr>heap = [0 \<mapsto> CategorizedTask ''Report'' ''10.10.2024'' ''Work'' True],
            next_addr = 1, tasks = [], completedTasks = [0], titleMap = Map.empty,
            categories = {}\<rparr>
   \<and> (\<exists>w'. load_line (''DONE:'' @ l) w = Inr w' \<and> tasks w' = tasks w
          \<and> titleMap w' = titleMap w \<and> categories w' = categories w
          \<and> completedTasks w' = completedTasks w @ [next_addr w])"
  by (simp add: loadFromFile_def ifstream_def getline_def load_line_def istringstream_def
        new_def init_def Let_def split: prod.splits)

section \<open>Searching\<close>

lemma string_find_None: "(string_find s q = None) = (\<not> sublist q s)"
  by (induction s) (auto simp: sublist_Cons_right)

lemma string_find_Some: "(\<exists>i. string_find s q = Some i) = sublist q s"
  using string_find_None [of s q] by (cases "string_find s q") auto

lemma searchTask_loop_eq:
  "objects w ps = Some ts \<Longrightarrow>
   searchTask_loop w q ps = Inr (map display (filter (\<lambda>t. sublist q (getTitle t)) ts))"
  by (induction ps arbitrary: ts)
     (auto simp: string_find_None string_find_Some split: option.splits)

text \<open>
  C9. With \<open>ts\<close> the active records in order, \<open>searchTask q\<close> displays exactly the
  records of \<open>ts\<close> whose title has \<open>q\<close> as a contiguous part, character for character, in
  the order of \<open>ts\<close>; the empty query displays them all. After adding \<open>Buy milk\<close> to the
  empty manager, \<open>milk\<close> finds it and \<open>Milk\<close> finds nothing.
\<close>

theorem searchTask_selects:
  "objects w (tasks w) = Some ts \<Longrightarrow>
     searchTask q w = Inr (map display (filter (\<lambda>t. sublist q (getTitle t)) ts))
   \<and> searchTask [] w = Inr (map display ts)
   \<and> (\<exists>w1. exec (Add ''Buy milk'' ''01.01.2025'' []) init = Inr w1
         \<and> searchTask ''milk'' w1 = Inr [display (Task ''Buy milk'' ''01.01.2025'' False)]
         \<and> searchTask ''Milk'' w1 = Inr [])"
  by (simp add: searchTask_def searchTask_loop_eq new_def addTask_def init_def menu_task_def)

theorem searchTask_selects_witness:
  "objects \<lparr>heap = [0 \<mapsto> Task ''Buy milk'' ''01.01.2025'' False], next_addr = 1, tasks = [0],
            completedTasks = [], titleMap = [''Buy milk'' \<mapsto> 0], categories = {}\<rparr> [0]
     = Some [Task ''Buy milk'' ''01.01.2025'' False]
   \<and> searchTask ''milk'' \<lparr>heap = [0 \<mapsto> Task ''Buy milk'' ''01.01.2025'' False], next_addr = 1,
            tasks = [0], completedTasks = [], titleMap = [''Buy milk'' \<mapsto> 0], categories = {}\<rparr>
     = Inr [display (Task ''Buy milk'' ''01.01.2025'' False)]"
  using searchTask_selects [of "\<lparr>heap = [0 \<mapsto> Task ''Buy milk'' ''01.01.2025'' False],
            next_addr = 1, tasks = [0], completedTasks = [], titleMap = [''Buy milk'' \<mapsto> 0],
            categories = {}\<rparr>" "[Task ''Buy milk'' ''01.01.2025'' False]" "''milk''"]
  by (simp add: sublist_code)

section \<open>The invariant of the manager\<close>

lemma wf_init: "wf init"
  by (simp add: wf_def init_def)

lemma getTitle_markCompleted [simp]: "getTitle (Task_markCompleted t) = getTitle t"
  by (cases t) simp_all

lemma wf_fresh:
  assumes "wf w"
  shows "heap w (next_addr w) = None" "next_addr w \<notin> set (tasks w)"
    "next_addr w \<notin> set (completedTasks w)" "titleMap w k \<noteq> Some (next_addr w)"
proof -
  from assms have d: "dom (heap w) \<subseteq> {..<next_addr w}" by (simp add: wf_def)
  then show h: "heap w (next_addr w) = None" by (meson domIff lessThan_iff less_irrefl subsetD)
  from assms have "set (tasks w) \<subseteq> dom (heap w)" "set (completedTasks w) \<subseteq> dom (heap w)"
    by (simp_all add: wf_def)
  with h show t: "next_addr w \<notin> set (tasks w)" "next_addr w \<notin> set (completedTasks w)"
    by (auto simp: domIff)
  from assms t show "titleMap w k \<noteq> Some (next_addr w)" by (auto simp: wf_def)
qed

lemma exec_Add:
  "exec (Add t d c) w = Inr (w\<lparr>heap := (heap w)(next_addr w \<mapsto> menu_task t d c),
       next_addr := Suc (next_addr w), tasks := tasks w @ [next_addr w],
       titleMap := (titleMap w)(t \<mapsto> next_addr w),
       categories := (if c \<noteq> [] then insert c (categories w) else categories w)\<rparr>)"
  by (simp add: new_def addTask_def)

declare exec.simps(1) [simp del]

lemma wf_Add: 
  assumes "wf w" shows "\<exists>w'. exec (Add t d c) w = Inr w' \<and> wf w'"
proof -
  note f = wf_fresh [OF assms]
  from assms have a: "set (tasks w) \<subseteq> dom (heap w)" "set (completedTasks w) \<subseteq> dom (heap w)"
    "dom (heap w) \<subseteq> {..<next_addr w}" "set (tasks w) \<inter> set (completedTasks w) = {}"
    and m: "\<And>k p. titleMap w k = Some p \<Longrightarrow> p \<in> set (tasks w) \<and> (\<exists>t. heap w p = Some t \<and> getTitle t = k)"
    by (auto simp: wf_def)
  let ?w = "w\<lparr>heap := (heap w)(next_addr w \<mapsto> menu_task t d c),
       next_addr := Suc (next_addr w), tasks := tasks w @ [next_addr w],
       titleMap := (titleMap w)(t \<mapsto> next_addr w),
       categories := (if c \<noteq> [] then insert c (categories w) else categories w)\<rparr>"
  have 1: "set (tasks ?w) \<subseteq> dom (heap ?w)" using a(1) by auto
  have 2: "set (completedTasks ?w) \<subseteq> dom (heap ?w)" using a(2) by auto
  have 3: "dom (heap ?w) \<subseteq> {..<next_addr ?w}" using a(3) by (auto simp: less_Suc_eq)
  have 4: "set (tasks ?w) \<inter> set (completedTasks ?w) = {}" using a(4) f(3) by auto
  have 5: "\<forall>k p. titleMap ?w k = Some p \<longrightarrow>
           p \<in> set (tasks ?w) \<and> (\<exists>t. heap ?w p = Some t \<and> getTitle t = k)"
  proof (intro allI impI)
    fix k p assume kp: "titleMap ?w k = Some p"
    show "p \<in> set (tasks ?w) \<and> (\<exists>t. heap ?w p = Some t \<and> getTitle t = k)"
    proof (cases "k = t")
      case True with kp show ?thesis by simp
    next
      case False
      with kp have "titleMap w k = Some p" by simp
      from m [OF this] f(1) show ?thesis by auto
    qed
  qed
  from 1 2 3 4 5 have "wf ?w" unfolding wf_def by blast
  then show ?thesis by (simp only: exec_Add) blast
qed

lemma markCompleted_None: "titleMap w t = None \<Longrightarrow> markCompleted t w = Inr w"
  by (simp add: markCompleted_def)

lemma markCompleted_Some:
  "titleMap w t = Some p \<Longrightarrow> heap w p = Some r \<Longrightarrow>
   markCompleted t w = Inr (w\<lparr>heap := (heap w)(p \<mapsto> Task_markCompleted r),
       completedTasks := completedTasks w @ [p], tasks := removeAll p (tasks w),
       titleMap := (titleMap w)(t := None)\<rparr>)"
  by (simp add: markCompleted_def)

lemma deleteTask_None: "titleMap w t = None \<Longrightarrow> deleteTask t w = Inr w"
  by (simp add: deleteTask_def)

lemma deleteTask_Some:
  "titleMap w t = Some p \<Longrightarrow> heap w p = Some r \<Longrightarrow>
   deleteTask t w = Inr (w\<lparr>tasks := removeAll p (tasks w), heap := (heap w)(p := None),
       titleMap := (titleMap w)(t := None)\<rparr>)"
  by (simp add: deleteTask_def)

lemma wf_entry:
  assumes "wf w" "titleMap w k = Some p"
  shows "p \<in> set (tasks w)" "p \<notin> set (completedTasks w)" "\<exists>r. heap w p = Some r \<and> getTitle r = k"
proof -
  from assms show t: "p \<in> set (tasks w)" and "\<exists>r. heap w p = Some r \<and> getTitle r = k"
    by (simp_all add: wf_def)
  from assms(1) have "set (tasks w) \<inter> set (completedTasks w) = {}" by (simp add: wf_def)
  with t show "p \<notin> set (completedTasks w)" by blast
qed

lemma wf_other_entry:
  assumes "wf w" "titleMap w t = Some p" "k \<noteq> t" "titleMap w k = Some q"
  shows "q \<noteq> p"
  using wf_entry(3) [OF assms(1,2)] wf_entry(3) [OF assms(1,4)] assms(3) by auto

lemma wf_markCompleted:
  assumes "wf w" shows "\<exists>w'. markCompleted t w = Inr w' \<and> wf w'"
proof (cases "titleMap w t")
  case None
  with assms show ?thesis by (simp add: markCompleted_None)
next
  case (Some p)
  from wf_entry [OF assms Some] obtain r where
    p: "p \<in> set (tasks w)" "p \<notin> set (completedTasks w)" "heap w p = Some r" "getTitle r = t"
    by blast
  from assms have a: "set (tasks w) \<subseteq> dom (heap w)" "set (completedTasks w) \<subseteq> dom (heap w)"
    "dom (heap w) \<subseteq> {..<next_addr w}" "set (tasks w) \<inter> set (completedTasks w) = {}"
    by (auto simp: wf_def)
  let ?w = "w\<lparr>heap := (heap w)(p \<mapsto> Task_markCompleted r),
       completedTasks := completedTasks w @ [p], tasks := removeAll p (tasks w),
       titleMap := (titleMap w)(t := None)\<rparr>"
  have 1: "set (tasks ?w) \<subseteq> dom (heap ?w)" using a(1) by auto
  have 2: "set (completedTasks ?w) \<subseteq> dom (heap ?w)" using a(2) by auto
  have 3: "dom (heap ?w) \<subseteq> {..<next_addr ?w}" using a(3) p(3) by auto
  have 4: "set (tasks ?w) \<inter> set (completedTasks ?w) = {}" using a(4) by auto
  have 5: "\<forall>k q. titleMap ?w k = Some q \<longrightarrow>
           q \<in> set (tasks ?w) \<and> (\<exists>x. heap ?w q = Some x \<and> getTitle x = k)"
  proof (intro allI impI)
    fix k q assume kq: "titleMap ?w k = Some q"
    then have k: "k \<noteq> t" "titleMap w k = Some q" by (auto split: if_splits)
    from wf_other_entry [OF assms Some k] have "q \<noteq> p" .
    with wf_entry [OF assms k(2)]
    show "q \<in> set (tasks ?w) \<and> (\<exists>x. heap ?w q = Some x \<and> getTitle x = k)" by simp
  qed
  from 1 2 3 4 5 have "wf ?w" unfolding wf_def by blast
  then show ?thesis by (simp only: markCompleted_Some [OF Some p(3)]) blast
qed

lemma wf_deleteTask:
  assumes "wf w" shows "\<exists>w'. deleteTask t w = Inr w' \<and> wf w'"
proof (cases "titleMap w t")
  case None
  with assms show ?thesis by (simp add: deleteTask_None)
next
  case (Some p)
  from wf_entry [OF assms Some] obtain r where
    p: "p \<in> set (tasks w)" "p \<notin> set (completedTasks w)" "heap w p = Some r" "getTitle r = t"
    by blast
  from assms have a: "set (tasks w) \<subseteq> dom (heap w)" "set (completedTasks w) \<subseteq> dom (heap w)"
    "dom (heap w) \<subseteq> {..<next_addr w}" "set (tasks w) \<inter> set (completedTasks w) = {}"
    by (auto simp: wf_def)
  let ?w = "w\<lparr>tasks := removeAll p (tasks w), heap := (heap w)(p := None),
       titleMap := (titleMap w)(t := None)\<rparr>"
  have 1: "set (tasks ?w) \<subseteq> dom (heap ?w)" using a(1) by auto
  have 2: "set (completedTasks ?w) \<subseteq> dom (heap ?w)" using a(2) p(2) by auto
  have 3: "dom (heap ?w) \<subseteq> {..<next_addr ?w}" using a(3) by auto
  have 4: "set (tasks ?w) \<inter> set (completedTasks ?w) = {}" using a(4) by auto
  have 5: "\<forall>k q. titleMap ?w k = Some q \<longrightarrow>
           q \<in> set (tasks ?w) \<and> (\<exists>x. heap ?w q = Some x \<and> getTitle x = k)"
  proof (intro allI impI)
    fix k q assume kq: "titleMap ?w k = Some q"
    then have k: "k \<noteq> t" "titleMap w k = Some q" by (auto split: if_splits)
    from wf_other_entry [OF assms Some k] have "q \<noteq> p" .
    with wf_entry [OF assms k(2)]
    show "q \<in> set (tasks ?w) \<and> (\<exists>x. heap ?w q = Some x \<and> getTitle x = k)" by simp
  qed
  from 1 2 3 4 5 have "wf ?w" unfolding wf_def by blast
  then show ?thesis by (simp only: deleteTask_Some [OF Some p(3)]) blast
qed

lemma wf_exec: "wf w \<Longrightarrow> \<exists>w'. exec c w = Inr w' \<and> wf w'"
proof (cases c)
  case (Add t d cat)
  assume "wf w"
  from wf_Add [OF this, of t d cat] Add show ?thesis by simp
next
  case (Complete t)
  assume "wf w"
  from wf_markCompleted [OF this, of t] Complete show ?thesis by simp
next
  case (Delete t)
  assume "wf w"
  from wf_deleteTask [OF this, of t] Delete show ?thesis by simp
qed

lemma wf_run: "wf w \<Longrightarrow> \<exists>w'. run cs w = Inr w' \<and> wf w'"
proof (induction cs arbitrary: w)
  case Nil
  then show ?case by simp
next
  case (Cons c cs)
  from wf_exec [OF Cons.prems, of c] obtain w1 where "exec c w = Inr w1" "wf w1" by blast
  with Cons.IH [of w1] show ?case by simp
qed

section \<open>Categories\<close>

lemma categories_exec: "exec c w = Inr w' \<Longrightarrow> categories w \<subseteq> categories w'"
  by (cases c)
     (auto simp: exec_Add markCompleted_def deleteTask_def split: option.splits if_splits)

lemma categories_run: "run cs w = Inr w' \<Longrightarrow> categories w \<subseteq> categories w'"
proof (induction cs arbitrary: w)
  case Nil
  then show ?case by simp
next
  case (Cons c cs)
  then obtain w1 where 1: "exec c w = Inr w1" and 2: "run cs w1 = Inr w'"
    by (auto split: sum.splits)
  from categories_exec [OF 1] Cons.IH [OF 2] show ?case by blast
qed

text \<open>
  C7. From a state the manager can be in, every sequence of commands runs through, and
  the set of categories at the end contains the set at the start. In particular a
  category that is not empty is in the set right after the task carrying it was added,
  and is still in the set after any commands that follow, deletions and completions of
  that task included.
\<close>

theorem categories_never_shrink:
  assumes "wf w"
  shows "(\<exists>w'. run cs w = Inr w' \<and> categories w \<subseteq> categories w')
       \<and> (c \<noteq> [] \<longrightarrow> (\<exists>w1 w2. exec (Add t d c) w = Inr w1 \<and> c \<in> categories w1
              \<and> run cs w1 = Inr w2 \<and> c \<in> categories w2))"
proof
  from wf_run [OF assms, of cs] obtain w' where "run cs w = Inr w'" by blast
  with categories_run [OF this] show "\<exists>w'. run cs w = Inr w' \<and> categories w \<subseteq> categories w'"
    by blast
next
  show "c \<noteq> [] \<longrightarrow> (\<exists>w1 w2. exec (Add t d c) w = Inr w1 \<and> c \<in> categories w1
              \<and> run cs w1 = Inr w2 \<and> c \<in> categories w2)"
  proof
    assume c: "c \<noteq> []"
    from wf_Add [OF assms, of t d c] obtain w1 where 1: "exec (Add t d c) w = Inr w1" "wf w1"
      by blast
    from 1(1) c have in1: "c \<in> categories w1" by (auto simp: exec_Add)
    from wf_run [OF 1(2), of cs] obtain w2 where 2: "run cs w1 = Inr w2" by blast
    from categories_run [OF 2] in1 have "c \<in> categories w2" by blast
    with 1(1) in1 2 show "\<exists>w1 w2. exec (Add t d c) w = Inr w1 \<and> c \<in> categories w1
              \<and> run cs w1 = Inr w2 \<and> c \<in> categories w2" by blast
  qed
qed

theorem categories_never_shrink_witness:
  "wf init \<and> ''Work'' \<noteq> []
   \<and> (\<exists>w1 w2. exec (Add ''Report'' ''10.10.2024'' ''Work'') init = Inr w1
         \<and> ''Work'' \<in> categories w1
         \<and> run [Complete ''Report'', Delete ''Report''] w1 = Inr w2
         \<and> tasks w2 = [] \<and> ''Work'' \<in> categories w2)"
  using categories_never_shrink [OF wf_init, of "[Complete ''Report'', Delete ''Report'']"
          "''Work''" "''Report''" "''10.10.2024''"] wf_init
  by (simp add: exec_Add init_def markCompleted_def deleteTask_def)

section \<open>Completion is terminal\<close>

lemma absent_exec:
  "titleMap w t = None \<Longrightarrow> \<not> adds_title t c \<Longrightarrow> exec c w = Inr w' \<Longrightarrow> titleMap w' t = None"
  by (cases c)
     (auto simp: exec_Add markCompleted_def deleteTask_def split: option.splits if_splits)

lemma absent_run:
  "titleMap w t = None \<Longrightarrow> \<not> list_ex (adds_title t) cs \<Longrightarrow> run cs w = Inr w'
   \<Longrightarrow> titleMap w' t = None"
proof (induction cs arbitrary: w)
  case Nil
  then show ?case by simp
next
  case (Cons c cs)
  from Cons.prems(3) obtain w1 where 1: "exec c w = Inr w1" and 2: "run cs w1 = Inr w'"
    by (auto split: sum.splits)
  from Cons.prems(2) have n: "\<not> adds_title t c" "\<not> list_ex (adds_title t) cs" by simp_all
  from absent_exec [OF Cons.prems(1) n(1) 1] have "titleMap w1 t = None" .
  from Cons.IH [OF this n(2) 2] show ?case .
qed

lemma retired_exec:
  assumes "wf w" "retired p r w" "exec c w = Inr w'"
  shows "retired p r w'"
proof (cases c)
  case (Add t d cat)
  from assms(2) have "heap w p = Some r" by (simp add: retired_def)
  with wf_fresh(1) [OF assms(1)] have "p \<noteq> next_addr w" by auto
  with assms(2,3) Add show ?thesis by (auto simp: exec_Add retired_def)
next
  case (Complete t)
  show ?thesis
  proof (cases "titleMap w t")
    case None
    with assms Complete show ?thesis by (simp add: markCompleted_None)
  next
    case (Some q)
    from wf_entry [OF assms(1) Some] obtain x where q: "q \<in> set (tasks w)" "heap w q = Some x"
      by blast
    with assms(2) have "q \<noteq> p" by (auto simp: retired_def)
    with assms(2,3) Complete Some q show ?thesis
      by (auto simp: markCompleted_Some retired_def)
  qed
next
  case (Delete t)
  show ?thesis
  proof (cases "titleMap w t")
    case None
    with assms Delete show ?thesis by (simp add: deleteTask_None)
  next
    case (Some q)
    from wf_entry [OF assms(1) Some] obtain x where q: "q \<in> set (tasks w)" "heap w q = Some x"
      by blast
    with assms(2) have "q \<noteq> p" by (auto simp: retired_def)
    with assms(2,3) Delete Some q show ?thesis
      by (auto simp: deleteTask_Some retired_def)
  qed
qed

lemma retired_run:
  "wf w \<Longrightarrow> retired p r w \<Longrightarrow> \<exists>w'. run cs w = Inr w' \<and> wf w' \<and> retired p r w'"
proof (induction cs arbitrary: w)
  case Nil
  then show ?case by simp
next
  case (Cons c cs)
  from wf_exec [OF Cons.prems(1), of c] obtain w1 where 1: "exec c w = Inr w1" "wf w1" by blast
  from retired_exec [OF Cons.prems 1(1)] have "retired p r w1" .
  from Cons.IH [OF 1(2) this] 1(1) show ?case by simp
qed

text \<open>
  C6. When \<open>title\<close> is in the title map, \<open>markCompleted title\<close> returns a state in which
  the title is no longer in the map, and on that state \<open>markCompleted title\<close> and
  \<open>deleteTask title\<close> return the very same state. The record is completed, in the
  completed list and not in the active list, and stays so, unchanged, after every
  sequence of commands; as long as no command adds the title again, completing or deleting
  the title still changes nothing.
\<close>

theorem completion_is_terminal:
  assumes "wf w" "titleMap w title = Some p"
  shows "\<exists>w1 r. markCompleted title w = Inr w1 \<and> titleMap w1 title = None
           \<and> markCompleted title w1 = Inr w1 \<and> deleteTask title w1 = Inr w1
           \<and> isCompleted r \<and> retired p r w1
           \<and> (\<exists>w2. run cs w1 = Inr w2 \<and> retired p r w2
                 \<and> (\<not> list_ex (adds_title title) cs \<longrightarrow>
                       markCompleted title w2 = Inr w2 \<and> deleteTask title w2 = Inr w2))"
proof -
  from wf_entry [OF assms] obtain x where
    p: "p \<in> set (tasks w)" "p \<notin> set (completedTasks w)" "heap w p = Some x" by blast
  let ?w1 = "w\<lparr>heap := (heap w)(p \<mapsto> Task_markCompleted x),
       completedTasks := completedTasks w @ [p], tasks := removeAll p (tasks w),
       titleMap := (titleMap w)(title := None)\<rparr>"
  let ?r = "Task_markCompleted x"
  have m: "markCompleted title w = Inr ?w1" by (rule markCompleted_Some [OF assms(2) p(3)])
  from wf_markCompleted [OF assms(1), of title] m have wf1: "wf ?w1" by simp
  have a: "titleMap ?w1 title = None" by simp
  have c: "isCompleted ?r" by (cases x) simp_all
  have r1: "retired p ?r ?w1" by (simp add: retired_def)
  from retired_run [OF wf1 r1, of cs] obtain w2 where
    2: "run cs ?w1 = Inr w2" "retired p ?r w2" by blast
  have "\<not> list_ex (adds_title title) cs \<longrightarrow>
          markCompleted title w2 = Inr w2 \<and> deleteTask title w2 = Inr w2"
  proof
    assume "\<not> list_ex (adds_title title) cs"
    from absent_run [OF a this 2(1)] have "titleMap w2 title = None" .
    then show "markCompleted title w2 = Inr w2 \<and> deleteTask title w2 = Inr w2"
      by (simp add: markCompleted_None deleteTask_None)
  qed
  with m a c r1 2 markCompleted_None [OF a] deleteTask_None [OF a] show ?thesis by blast
qed

theorem completion_is_terminal_witness:
  "wf \<lparr>heap = [0 \<mapsto> Task ''Report'' ''10.10.2024'' False], next_addr = 1, tasks = [0],
        completedTasks = [], titleMap = [''Report'' \<mapsto> 0], categories = {}\<rparr>
   \<and> titleMap \<lparr>heap = [0 \<mapsto> Task ''Report'' ''10.10.2024'' False], next_addr = 1, tasks = [0],
        completedTasks = [], titleMap = [''Report'' \<mapsto> 0], categories = {}\<rparr> ''Report'' = Some 0
   \<and> \<not> list_ex (adds_title ''Report'') [Delete ''Report'', Add ''Other'' ''1.1.2025'' []]
   \<and> (\<exists>w1 r. markCompleted ''Report''
           \<lparr>heap = [0 \<mapsto> Task ''Report'' ''10.10.2024'' False], next_addr = 1, tasks = [0],
             completedTasks = [], titleMap = [''Report'' \<mapsto> 0], categories = {}\<rparr> = Inr w1
         \<and> markCompleted ''Report'' w1 = Inr w1 \<and> deleteTask ''Report'' w1 = Inr w1
         \<and> isCompleted r \<and> retired 0 r w1
         \<and> (\<exists>w2. run [Delete ''Report'', Add ''Other'' ''1.1.2025'' []] w1 = Inr w2
               \<and> retired 0 r w2
               \<and> markCompleted ''Report'' w2 = Inr w2 \<and> deleteTask ''Report'' w2 = Inr w2))"
proof -
  let ?W = "\<lparr>heap = [0 \<mapsto> Task ''Report'' ''10.10.2024'' False], next_addr = 1, tasks = [0],
        completedTasks = [], titleMap = [''Report'' \<mapsto> 0], categories = {}\<rparr>"
  have e: "exec (Add ''Report'' ''10.10.2024'' []) init = Inr ?W"
    by (simp add: exec_Add init_def menu_task_def)
  from wf_Add [OF wf_init, of "''Report''" "''10.10.2024''" "[]"] e have w: "wf ?W" by simp
  have t: "titleMap ?W ''Report'' = Some 0" by simp
  have n: "\<not> list_ex (adds_title ''Report'') [Delete ''Report'', Add ''Other'' ''1.1.2025'' []]"
    by simp
  from completion_is_terminal [OF w t, of "[Delete ''Report'', Add ''Other'' ''1.1.2025'' []]"] n
  have "\<exists>w1 r. markCompleted ''Report'' ?W = Inr w1
         \<and> markCompleted ''Report'' w1 = Inr w1 \<and> deleteTask ''Report'' w1 = Inr w1
         \<and> isCompleted r \<and> retired 0 r w1
         \<and> (\<exists>w2. run [Delete ''Report'', Add ''Other'' ''1.1.2025'' []] w1 = Inr w2
               \<and> retired 0 r w2
               \<and> markCompleted ''Report'' w2 = Inr w2 \<and> deleteTask ''Report'' w2 = Inr w2)"
    by blast
  with w t n show ?thesis by blast
qed

section \<open>Two records with one title\<close>

lemma shadowed_exec:
  assumes "wf w" "shadowed p r w" "exec c w = Inr w'"
  shows "shadowed p r w'"
proof (cases c)
  case (Add t d cat)
  from assms(2) have "heap w p = Some r" by (simp add: shadowed_def)
  with wf_fresh(1) [OF assms(1)] have "p \<noteq> next_addr w" by auto
  with assms(2,3) Add show ?thesis by (auto simp: exec_Add shadowed_def split: if_splits)
next
  case (Complete t)
  show ?thesis
  proof (cases "titleMap w t")
    case None
    with assms Complete show ?thesis by (simp add: markCompleted_None)
  next
    case (Some q)
    from wf_entry [OF assms(1) Some] obtain x where q: "heap w q = Some x" by blast
    from assms(2) Some have "q \<noteq> p" by (auto simp: shadowed_def)
    with assms(2,3) Complete Some q show ?thesis
      by (auto simp: markCompleted_Some shadowed_def split: if_splits)
  qed
next
  case (Delete t)
  show ?thesis
  proof (cases "titleMap w t")
    case None
    with assms Delete show ?thesis by (simp add: deleteTask_None)
  next
    case (Some q)
    from wf_entry [OF assms(1) Some] obtain x where q: "heap w q = Some x" by blast
    from assms(2) Some have "q \<noteq> p" by (auto simp: shadowed_def)
    with assms(2,3) Delete Some q show ?thesis
      by (auto simp: deleteTask_Some shadowed_def split: if_splits)
  qed
qed

lemma shadowed_run:
  "wf w \<Longrightarrow> shadowed p r w \<Longrightarrow> \<exists>w'. run cs w = Inr w' \<and> wf w' \<and> shadowed p r w'"
proof (induction cs arbitrary: w)
  case Nil
  then show ?case by simp
next
  case (Cons c cs)
  from wf_exec [OF Cons.prems(1), of c] obtain w1 where 1: "exec c w = Inr w1" "wf w1" by blast
  from shadowed_exec [OF Cons.prems 1(1)] have "shadowed p r w1" .
  from Cons.IH [OF 1(2) this] 1(1) show ?case by simp
qed

lemma objects_total: "set ps \<subseteq> dom (heap w) \<Longrightarrow> \<exists>ts. objects w ps = Some ts"
  by (induction ps) auto

lemma objects_mem:
  "objects w ps = Some ts \<Longrightarrow> p \<in> set ps \<Longrightarrow> heap w p = Some r \<Longrightarrow> r \<in> set ts"
  by (induction ps arbitrary: ts) (auto split: option.splits)

lemma display_all_eq: "objects w ps = Some ts \<Longrightarrow> display_all w ps = Inr (map display ts)"
  by (induction ps arbitrary: ts) (auto split: option.splits)

lemma shadowed_shown:
  assumes "wf w" "shadowed p r w"
  shows "\<exists>out. viewTasks False w = Inr out \<and> display r \<in> set out"
    and "\<exists>out. searchTask (getTitle r) w = Inr out \<and> display r \<in> set out"
proof -
  from assms(1) have "set (tasks w) \<subseteq> dom (heap w)" by (simp add: wf_def)
  from objects_total [OF this] obtain ts where ts: "objects w (tasks w) = Some ts" by blast
  from assms(2) have "p \<in> set (tasks w)" "heap w p = Some r" by (simp_all add: shadowed_def)
  from objects_mem [OF ts this] have r: "r \<in> set ts" .
  from display_all_eq [OF ts] r
  show "\<exists>out. viewTasks False w = Inr out \<and> display r \<in> set out"
    by (simp add: viewTasks_def)
  from searchTask_loop_eq [OF ts, of "getTitle r"] r
  show "\<exists>out. searchTask (getTitle r) w = Inr out \<and> display r \<in> set out"
    by (simp add: searchTask_def)
qed

lemma shadowed_forever:
  assumes "wf w" "shadowed p r w"
  shows "\<exists>w'. run cs w = Inr w' \<and> shadowed p r w' \<and> listed r w'"
proof -
  from shadowed_run [OF assms, of cs] obtain w' where
    1: "run cs w = Inr w'" "wf w'" "shadowed p r w'" by blast
  from shadowed_shown [OF 1(2,3)] have "listed r w'" by (simp add: listed_def)
  with 1 show ?thesis by blast
qed

lemma wf_below:
  assumes "wf w" shows "\<forall>p\<in>set (tasks w). p < next_addr w"
  using assms by (auto simp: wf_def)

text \<open>
  C10. Add two tasks with the same title, one after the other. The title map then leads
  to the second record. Completing the title moves the second record only to the
  completed list, and deleting the title frees the second record only; either way the
  first record is the one left of the two in the active list. After every sequence of
  commands that follows, the first record is still active and unchanged, no title leads
  to it, and it is shown by the listing and by a search for its title.
\<close>

theorem shadowed_record_remains:
  assumes "wf w"
  shows "\<exists>w2. run [Add t d1 c1, Add t d2 c2] w = Inr w2
           \<and> tasks w2 = tasks w @ [next_addr w, Suc (next_addr w)]
           \<and> heap w2 (next_addr w) = Some (menu_task t d1 c1)
           \<and> heap w2 (Suc (next_addr w)) = Some (menu_task t d2 c2)
           \<and> titleMap w2 t = Some (Suc (next_addr w))
           \<and> (\<exists>w3. markCompleted t w2 = Inr w3
                 \<and> tasks w3 = tasks w @ [next_addr w]
                 \<and> completedTasks w3 = completedTasks w @ [Suc (next_addr w)]
                 \<and> (\<exists>w4. run cs w3 = Inr w4 \<and> shadowed (next_addr w) (menu_task t d1 c1) w4
                       \<and> listed (menu_task t d1 c1) w4))
           \<and> (\<exists>w3. deleteTask t w2 = Inr w3
                 \<and> tasks w3 = tasks w @ [next_addr w]
                 \<and> heap w3 (Suc (next_addr w)) = None
                 \<and> (\<exists>w4. run cs w3 = Inr w4 \<and> shadowed (next_addr w) (menu_task t d1 c1) w4
                       \<and> listed (menu_task t d1 c1) w4))"
proof -
  let ?n = "next_addr w"
  let ?r1 = "menu_task t d1 c1"
  from wf_Add [OF assms, of t d1 c1] obtain w1 where 1: "exec (Add t d1 c1) w = Inr w1" "wf w1"
    by blast
  from wf_Add [OF 1(2), of t d2 c2] obtain w2 where 2: "exec (Add t d2 c2) w1 = Inr w2" "wf w2"
    by blast
  from 1(1) 2(1) have r: "run [Add t d1 c1, Add t d2 c2] w = Inr w2" by simp
  from 1(1) have w1: "w1 = w\<lparr>heap := (heap w)(?n \<mapsto> ?r1),
       next_addr := Suc ?n, tasks := tasks w @ [?n], titleMap := (titleMap w)(t \<mapsto> ?n),
       categories := (if c1 \<noteq> [] then insert c1 (categories w) else categories w)\<rparr>"
    by (simp add: exec_Add)
  from 2(1) have w2: "w2 = w1\<lparr>heap := (heap w1)(next_addr w1 \<mapsto> menu_task t d2 c2),
       next_addr := Suc (next_addr w1), tasks := tasks w1 @ [next_addr w1],
       titleMap := (titleMap w1)(t \<mapsto> next_addr w1),
       categories := (if c2 \<noteq> [] then insert c2 (categories w1) else categories w1)\<rparr>"
    by (simp add: exec_Add)
  have f: "Suc ?n \<notin> set (tasks w)" using wf_below [OF assms] by auto
  have t2: "tasks w2 = tasks w @ [?n, Suc ?n]" by (simp add: w1 w2)
  have h1: "heap w2 ?n = Some ?r1" by (simp add: w1 w2)
  have h2: "heap w2 (Suc ?n) = Some (menu_task t d2 c2)" by (simp add: w1 w2)
  have m2: "titleMap w2 t = Some (Suc ?n)" by (simp add: w1 w2)
  have c2: "completedTasks w2 = completedTasks w" by (simp add: w1 w2)
  have no: "\<forall>k. titleMap w2 k \<noteq> Some ?n"
    using wf_fresh(4) [OF assms] by (simp add: w1 w2)
  have mc: "markCompleted t w2 = Inr (w2\<lparr>heap := (heap w2)(Suc ?n \<mapsto> Task_markCompleted (menu_task t d2 c2)),
       completedTasks := completedTasks w2 @ [Suc ?n], tasks := removeAll (Suc ?n) (tasks w2),
       titleMap := (titleMap w2)(t := None)\<rparr>)" (is "_ = Inr ?w3")
    by (rule markCompleted_Some [OF m2 h2])
  from wf_markCompleted [OF 2(2), of t] mc have wf3: "wf ?w3" by simp
  have s3: "shadowed ?n ?r1 ?w3" using no f by (simp add: shadowed_def t2 h1)
  have t3: "tasks ?w3 = tasks w @ [?n]" using f by (simp add: t2)
  have c3: "completedTasks ?w3 = completedTasks w @ [Suc ?n]" by (simp add: c2)
  from shadowed_forever [OF wf3 s3, of cs] mc t3 c3
  have A: "\<exists>w3. markCompleted t w2 = Inr w3
                 \<and> tasks w3 = tasks w @ [?n]
                 \<and> completedTasks w3 = completedTasks w @ [Suc ?n]
                 \<and> (\<exists>w4. run cs w3 = Inr w4 \<and> shadowed ?n ?r1 w4 \<and> listed ?r1 w4)"
    by blast
  have dl: "deleteTask t w2 = Inr (w2\<lparr>tasks := removeAll (Suc ?n) (tasks w2),
       heap := (heap w2)(Suc ?n := None), titleMap := (titleMap w2)(t := None)\<rparr>)"
    (is "_ = Inr ?v3")
    by (rule deleteTask_Some [OF m2 h2])
  from wf_deleteTask [OF 2(2), of t] dl have wfv: "wf ?v3" by simp
  have sv: "shadowed ?n ?r1 ?v3" using no f by (simp add: shadowed_def t2 h1)
  have tv: "tasks ?v3 = tasks w @ [?n]" using f by (simp add: t2)
  have hv: "heap ?v3 (Suc ?n) = None" by simp
  from shadowed_forever [OF wfv sv, of cs] dl tv hv
  have B: "\<exists>w3. deleteTask t w2 = Inr w3
                 \<and> tasks w3 = tasks w @ [?n]
                 \<and> heap w3 (Suc ?n) = None
                 \<and> (\<exists>w4. run cs w3 = Inr w4 \<and> shadowed ?n ?r1 w4 \<and> listed ?r1 w4)"
    by blast
  from r t2 h1 h2 m2 A B show ?thesis by blast
qed

theorem shadowed_record_remains_witness:
  "wf init
   \<and> (\<exists>w2. run [Add ''Report'' ''10.10.2024'' [], Add ''Report'' ''11.11.2024'' []] init = Inr w2
        \<and> tasks w2 = [0, 1]
        \<and> titleMap w2 ''Report'' = Some 1
        \<and> (\<exists>w3. markCompleted ''Report'' w2 = Inr w3 \<and> tasks w3 = [0] \<and> completedTasks w3 = [1]
              \<and> (\<exists>w4. run [Complete ''Report'', Delete ''Report''] w3 = Inr w4
                    \<and> shadowed 0 (Task ''Report'' ''10.10.2024'' False) w4
                    \<and> listed (Task ''Report'' ''10.10.2024'' False) w4)))"
  using shadowed_record_remains [OF wf_init, of "''Report''" "''10.10.2024''" "[]"
          "''11.11.2024''" "[]" "[Complete ''Report'', Delete ''Report'']"] wf_init
  by (simp add: init_def menu_task_def) blast

section \<open>The title map after adds\<close>

lemma run_append:
  "run (cs @ ds) w = (case run cs w of Inl e \<Rightarrow> Inl e | Inr w' \<Rightarrow> run ds w')"
  by (induction cs arbitrary: w) (auto split: sum.splits)

lemma last_with_snoc:
  "last_with t (xs @ [x]) p =
     (if fst x = t then p = length xs else last_with t xs p)"
proof (cases "fst x = t")
  case True
  show ?thesis
  proof
    assume l: "last_with t (xs @ [x]) p"
    show "if fst x = t then p = length xs else last_with t xs p"
    proof (rule ccontr)
      assume "\<not> (if fst x = t then p = length xs else last_with t xs p)"
      with True have "p \<noteq> length xs" by simp
      with l have p: "p < length xs" by (simp add: last_with_def)
      from l have "\<forall>q. p < q \<and> q < length (xs @ [x]) \<longrightarrow> fst ((xs @ [x]) ! q) \<noteq> t"
        by (simp add: last_with_def)
      from this [rule_format, of "length xs"] p have "fst ((xs @ [x]) ! length xs) \<noteq> t"
        by simp
      with True show False by simp
    qed
  next
    assume "if fst x = t then p = length xs else last_with t xs p"
    with True show "last_with t (xs @ [x]) p" by (auto simp: last_with_def)
  qed
next
  case False
  have "last_with t (xs @ [x]) p = last_with t xs p"
  proof
    assume l: "last_with t (xs @ [x]) p"
    with False have p: "p < length xs"
      by (cases "p = length xs") (auto simp: last_with_def)
    have "\<forall>q. p < q \<and> q < length xs \<longrightarrow> fst (xs ! q) \<noteq> t"
    proof (intro allI impI)
      fix q assume q: "p < q \<and> q < length xs"
      from l have "\<forall>q. p < q \<and> q < length (xs @ [x]) \<longrightarrow> fst ((xs @ [x]) ! q) \<noteq> t"
        by (simp add: last_with_def)
      from this [rule_format, of q] q have "fst ((xs @ [x]) ! q) \<noteq> t" by simp
      with q show "fst (xs ! q) \<noteq> t" by (simp add: nth_append)
    qed
    with l p show "last_with t xs p" by (simp add: last_with_def nth_append)
  next
    assume l: "last_with t xs p"
    have "\<forall>q. p < q \<and> q < length (xs @ [x]) \<longrightarrow> fst ((xs @ [x]) ! q) \<noteq> t"
    proof (intro allI impI)
      fix q assume q: "p < q \<and> q < length (xs @ [x])"
      show "fst ((xs @ [x]) ! q) \<noteq> t"
      proof (cases "q = length xs")
        case True with False show ?thesis by simp
      next
        case False
        with q have "q < length xs" by simp
        with l q show ?thesis by (simp add: last_with_def nth_append)
      qed
    qed
    with l show "last_with t (xs @ [x]) p" by (simp add: last_with_def nth_append)
  qed
  with False show ?thesis by simp
qed

lemma adds_state:
  "\<exists>w. run (adds xs) init = Inr w \<and> next_addr w = length xs \<and> tasks w = [0..<length xs]
      \<and> completedTasks w = []
      \<and> heap w = (\<lambda>p. if p < length xs then Some (case xs ! p of (t, d, c) \<Rightarrow> menu_task t d c)
                        else None)
      \<and> (\<forall>t p. (titleMap w t = Some p) = last_with t xs p)"
proof (induction xs rule: rev_induct)
  case Nil
  show ?case by (simp add: adds_def init_def last_with_def)
next
  case (snoc x xs)
  then obtain w where w: "run (adds xs) init = Inr w" "next_addr w = length xs"
    "tasks w = [0..<length xs]" "completedTasks w = []"
    "heap w = (\<lambda>p. if p < length xs then Some (case xs ! p of (t, d, c) \<Rightarrow> menu_task t d c)
                        else None)"
    "\<forall>t p. (titleMap w t = Some p) = last_with t xs p" by blast
  obtain t d c where x: "x = (t, d, c)" by (cases x)
  let ?w = "w\<lparr>heap := (heap w)(next_addr w \<mapsto> menu_task t d c),
       next_addr := Suc (next_addr w), tasks := tasks w @ [next_addr w],
       titleMap := (titleMap w)(t \<mapsto> next_addr w),
       categories := (if c \<noteq> [] then insert c (categories w) else categories w)\<rparr>"
  have r: "run (adds (xs @ [x])) init = Inr ?w"
    using w(1) by (simp add: adds_def run_append x exec_Add)
  have h: "heap ?w = (\<lambda>p. if p < length (xs @ [x])
              then Some (case (xs @ [x]) ! p of (t, d, c) \<Rightarrow> menu_task t d c) else None)"
    by (rule ext) (simp add: w(2,5) x nth_append less_Suc_eq)
  have m: "\<forall>t' p. (titleMap ?w t' = Some p) = last_with t' (xs @ [x]) p"
    using w(2,6) by (auto simp: last_with_snoc x)
  from r h m w(2,3,4) show ?case by auto
qed

lemma ex_last_with: "(\<exists>p. last_with t xs p) = (t \<in> fst ` set xs)"
proof (induction xs rule: rev_induct)
  case Nil
  show ?case by (simp add: last_with_def)
next
  case (snoc x xs)
  then show ?case by (auto simp: last_with_snoc)
qed

lemma objects_map:
  "\<forall>p\<in>set ps. heap w p = Some (f p) \<Longrightarrow> objects w ps = Some (map f ps)"
  by (induction ps) auto

text \<open>
  C5. Add any list of tasks to the empty manager. The run returns; the active records
  are the tasks added, in order, at the addresses 0, 1, ...; the titles that have an
  entry in the title map are exactly the titles of the active records; and the entry of
  a title leads to the last record added with that title. Further, in any state the
  manager can be in, adding a task whose title is that of an active record \<open>q\<close> makes
  the entry of the title lead to the new record, while \<open>q\<close> stays in the active list with
  no entry of the map leading to it.
\<close>

theorem one_entry_per_title:
  "(\<exists>w ts. run (adds xs) init = Inr w \<and> tasks w = [0..<length xs]
       \<and> objects w (tasks w) = Some ts \<and> map getTitle ts = map fst xs
       \<and> dom (titleMap w) = set (map getTitle ts)
       \<and> (\<forall>t p. (titleMap w t = Some p) = last_with t xs p))
   \<and> (wf w0 \<and> q \<in> set (tasks w0) \<and> heap w0 q = Some r \<longrightarrow>
        (\<exists>w'. exec (Add (getTitle r) d c) w0 = Inr w'
           \<and> titleMap w' (getTitle r) = Some (next_addr w0)
           \<and> heap w' (next_addr w0) = Some (menu_task (getTitle r) d c)
           \<and> q \<noteq> next_addr w0 \<and> shadowed q r w'))"
proof
  from adds_state [of xs] obtain w where w: "run (adds xs) init = Inr w"
    "tasks w = [0..<length xs]"
    "heap w = (\<lambda>p. if p < length xs then Some (case xs ! p of (t, d, c) \<Rightarrow> menu_task t d c)
                        else None)"
    "\<forall>t p. (titleMap w t = Some p) = last_with t xs p" by blast
  let ?f = "\<lambda>p. case xs ! p of (t, d, c) \<Rightarrow> menu_task t d c"
  let ?ts = "map ?f [0..<length xs]"
  have "objects w [0..<length xs] = Some ?ts"
    by (rule objects_map) (simp add: w(3))
  then have o: "objects w (tasks w) = Some ?ts" by (simp add: w(2))
  have g: "map getTitle ?ts = map fst xs"
    by (rule nth_equalityI) (simp_all split: prod.splits)
  have "dom (titleMap w) = fst ` set xs"
    using w(4) ex_last_with [of _ xs] by (auto simp: dom_def)
  with g have d: "dom (titleMap w) = set (map getTitle ?ts)" by simp
  from w(1,2,4) o g d
  show "\<exists>w ts. run (adds xs) init = Inr w \<and> tasks w = [0..<length xs]
       \<and> objects w (tasks w) = Some ts \<and> map getTitle ts = map fst xs
       \<and> dom (titleMap w) = set (map getTitle ts)
       \<and> (\<forall>t p. (titleMap w t = Some p) = last_with t xs p)" by blast
next
  show "wf w0 \<and> q \<in> set (tasks w0) \<and> heap w0 q = Some r \<longrightarrow>
        (\<exists>w'. exec (Add (getTitle r) d c) w0 = Inr w'
           \<and> titleMap w' (getTitle r) = Some (next_addr w0)
           \<and> heap w' (next_addr w0) = Some (menu_task (getTitle r) d c)
           \<and> q \<noteq> next_addr w0 \<and> shadowed q r w')"
  proof
    assume a: "wf w0 \<and> q \<in> set (tasks w0) \<and> heap w0 q = Some r"
    then have wf0: "wf w0" and q: "q \<in> set (tasks w0)" "heap w0 q = Some r" by simp_all
    from wf_fresh(1) [OF wf0] q(2) have ne: "q \<noteq> next_addr w0" by auto
    have "\<forall>k. (if k = getTitle r then Some (next_addr w0) else titleMap w0 k) \<noteq> Some q"
    proof
      fix k
      show "(if k = getTitle r then Some (next_addr w0) else titleMap w0 k) \<noteq> Some q"
      proof (cases "k = getTitle r")
        case True with ne show ?thesis by simp
      next
        case False
        have "titleMap w0 k \<noteq> Some q"
        proof
          assume "titleMap w0 k = Some q"
          from wf_entry(3) [OF wf0 this] q(2) False show False by simp
        qed
        with False show ?thesis by simp
      qed
    qed
    with q ne show "\<exists>w'. exec (Add (getTitle r) d c) w0 = Inr w'
           \<and> titleMap w' (getTitle r) = Some (next_addr w0)
           \<and> heap w' (next_addr w0) = Some (menu_task (getTitle r) d c)
           \<and> q \<noteq> next_addr w0 \<and> shadowed q r w'"
      by (simp add: exec_Add shadowed_def fun_upd_def)
  qed
qed

theorem one_entry_per_title_witness:
  "wf \<lparr>heap = [0 \<mapsto> Task ''Report'' ''10.10.2024'' False], next_addr = 1, tasks = [0],
        completedTasks = [], titleMap = [''Report'' \<mapsto> 0], categories = {}\<rparr>
   \<and> (\<exists>w. run (adds [(''Report'', ''10.10.2024'', []), (''Call'', ''1.1.2025'', ''Home''),
                       (''Report'', ''11.11.2024'', ''Work'')]) init = Inr w
         \<and> dom (titleMap w) = {''Report'', ''Call''}
         \<and> titleMap w ''Report'' = Some 2 \<and> titleMap w ''Call'' = Some 1)
   \<and> (\<exists>w'. exec (Add ''Report'' ''11.11.2024'' ''Work'')
               \<lparr>heap = [0 \<mapsto> Task ''Report'' ''10.10.2024'' False], next_addr = 1, tasks = [0],
                 completedTasks = [], titleMap = [''Report'' \<mapsto> 0], categories = {}\<rparr> = Inr w'
         \<and> titleMap w' ''Report'' = Some 1
         \<and> shadowed 0 (Task ''Report'' ''10.10.2024'' False) w')"
proof -
  let ?W = "\<lparr>heap = [0 \<mapsto> Task ''Report'' ''10.10.2024'' False], next_addr = 1, tasks = [0],
        completedTasks = [], titleMap = [''Report'' \<mapsto> 0], categories = {}\<rparr>"
  let ?xs = "[(''Report'', ''10.10.2024'', []), (''Call'', ''1.1.2025'', ''Home''),
              (''Report'', ''11.11.2024'', ''Work'')]"
  let ?R = "Task ''Report'' ''10.10.2024'' False"
  have e: "exec (Add ''Report'' ''10.10.2024'' []) init = Inr ?W"
    by (simp add: exec_Add init_def menu_task_def)
  from wf_Add [OF wf_init, of "''Report''" "''10.10.2024''" "[]"] e have w: "wf ?W" by simp
  note inst = one_entry_per_title [of ?xs ?W 0 ?R "''11.11.2024''" "''Work''"]
  from inst obtain v ts where v: "run (adds ?xs) init = Inr v"
    "objects v (tasks v) = Some ts" "map getTitle ts = map fst ?xs"
    "dom (titleMap v) = set (map getTitle ts)"
    "\<forall>t p. (titleMap v t = Some p) = last_with t ?xs p" by blast
  have l: "last_with ''Report'' ?xs 2" "last_with ''Call'' ?xs 1"
    by (auto simp: last_with_def nth_Cons split: nat.splits)
  from v(5) l have m: "titleMap v ''Report'' = Some 2" "titleMap v ''Call'' = Some 1" by simp_all
  from v(3,4) have d: "dom (titleMap v) = {''Report'', ''Call''}" by auto
  from inst w have "\<exists>w'. exec (Add ''Report'' ''11.11.2024'' ''Work'') ?W = Inr w'
         \<and> titleMap w' ''Report'' = Some 1 \<and> shadowed 0 ?R w'" by simp blast
  with w v(1) d m show ?thesis by blast
qed

section \<open>Saving and loading again\<close>

declare loadFromFile_loop.simps [simp del]

lemma fields_reloaded [simp]: "fields (reloaded t) = fields t"
  by (simp add: fields_def reloaded_def)

lemma extract_until_field: "c \<notin> set a \<Longrightarrow> extract_until c (a @ c # r) = (a, Some r)"
  by (induction a) auto

lemma extract_until_last: "c \<notin> set a \<Longrightarrow> extract_until c a = (a, None)"
  by (induction a) auto

lemma getline_field:
  "c \<notin> set a \<Longrightarrow>
   getline \<lparr>buf = a @ c # r, eofbit = False, failbit = False\<rparr> str c =
     (\<lparr>buf = r, eofbit = False, failbit = False\<rparr>, a, True)"
  by (simp add: getline_def extract_until_field)

lemma getline_last:
  "c \<notin> set a \<Longrightarrow>
   getline \<lparr>buf = a, eofbit = False, failbit = False\<rparr> str c =
     (\<lparr>buf = [], eofbit = True, failbit = (a = [])\<rparr>, a, a \<noteq> [])"
  by (simp add: getline_def extract_until_last)

lemma prefix_DONE: "CHR '';'' \<notin> set t \<Longrightarrow> prefix ''DONE:'' (t @ CHR '';'' # r) = prefix ''DONE:'' t"
  by (auto simp: prefix_append prefix_Cons Cons_eq_append_conv)

lemma flag_plain: "CHR '';'' \<notin> set (if c then ''1'' else ''0'')"
  by simp

lemma load_line_active:
  assumes "storable t" "\<not> prefix ''DONE:'' (getTitle t)"
  shows "load_line (toFileString t) w =
           (case new (reloaded t) w of (p, w') \<Rightarrow> addTask p w')"
proof (cases t)
  case (Task ti d c)
  with assms have p: "CHR '';'' \<notin> set ti" "CHR '';'' \<notin> set d" "\<not> prefix ''DONE:'' ti"
    by (simp_all add: storable_def plain_text_def)
  have l: "toFileString t = ti @ CHR '';'' # d @ CHR '';'' # (if c then ''1'' else ''0'')"
    by (simp add: Task)
  from p(1,3) have nd: "\<not> prefix ''DONE:'' (toFileString t)" by (simp add: l prefix_DONE)
  show ?thesis
    unfolding load_line_def Let_def istringstream_def
    using nd p
    by (simp add: l getline_field getline_last getline_eof reloaded_def Task prefix_DONE)
next
  case (CategorizedTask ti d cat c)
  with assms have p: "CHR '';'' \<notin> set ti" "CHR '';'' \<notin> set d" "CHR '';'' \<notin> set cat"
    "\<not> prefix ''DONE:'' ti"
    by (simp_all add: storable_def plain_text_def)
  have l: "toFileString t = ti @ CHR '';'' # d @ CHR '';'' # (if c then ''1'' else ''0'') @ CHR '';'' # cat"
    by (simp add: CategorizedTask)
  from p(1,4) have nd: "\<not> prefix ''DONE:'' (toFileString t)" by (simp add: l prefix_DONE)
  show ?thesis
    unfolding load_line_def Let_def istringstream_def
    using nd p
    by (simp add: l getline_field getline_last getline_eof reloaded_def CategorizedTask prefix_DONE)
qed

lemma load_line_done:
  assumes "storable t"
  shows "load_line (''DONE:'' @ toFileString t) w =
           (case new (reloaded t) w of (p, w') \<Rightarrow>
              Inr (w'\<lparr>completedTasks := completedTasks w' @ [p]\<rparr>))"
proof (cases t)
  case (Task ti d c)
  with assms have p: "CHR '';'' \<notin> set ti" "CHR '';'' \<notin> set d"
    by (simp_all add: storable_def plain_text_def)
  have l: "toFileString t = ti @ CHR '';'' # d @ CHR '';'' # (if c then ''1'' else ''0'')"
    by (simp add: Task)
  show ?thesis
    unfolding load_line_def Let_def istringstream_def
    using p
    by (simp add: l getline_field getline_last getline_eof reloaded_def Task)
next
  case (CategorizedTask ti d cat c)
  with assms have p: "CHR '';'' \<notin> set ti" "CHR '';'' \<notin> set d" "CHR '';'' \<notin> set cat"
    by (simp_all add: storable_def plain_text_def)
  have l: "toFileString t = ti @ CHR '';'' # d @ CHR '';'' # (if c then ''1'' else ''0'') @ CHR '';'' # cat"
    by (simp add: CategorizedTask)
  show ?thesis
    unfolding load_line_def Let_def istringstream_def
    using p
    by (simp add: l getline_field getline_last getline_eof reloaded_def CategorizedTask)
qed

lemma loop_lines:
  "\<forall>l\<in>set ls. CHR 0x0A \<notin> set l \<Longrightarrow>
   loadFromFile_loop \<lparr>buf = concat (map (\<lambda>l. l @ [CHR 0x0A]) ls), eofbit = False, failbit = False\<rparr>
     line w = load_lines ls w"
proof (induction ls arbitrary: line w)
  case Nil
  show ?case
    by (subst loadFromFile_loop.simps) (simp add: getline_def)
next
  case (Cons l ls)
  then have l: "CHR 0x0A \<notin> set l" by simp
  show ?case
    by (subst loadFromFile_loop.simps)
       (simp add: getline_field [OF l] Cons split: sum.splits)
qed

lemma load_lines_append:
  "load_lines (xs @ ys) w =
     (case load_lines xs w of Inl e \<Rightarrow> Inl e | Inr w' \<Rightarrow> load_lines ys w')"
  by (induction xs arbitrary: w) (auto split: sum.splits)

lemma save_loop_good:
  "\<not> ofailbit ofs \<Longrightarrow> objects w ps = Some ts \<Longrightarrow>
   save_loop pre w ps ofs =
     Inr (ofs\<lparr>obuf := obuf ofs @ concat (map (\<lambda>t. (pre @ toFileString t) @ [CHR 0x0A]) ts)\<rparr>)"
proof (induction ps arbitrary: ts ofs)
  case Nil
  then show ?case by simp
next
  case (Cons p ps)
  from Cons.prems(2) obtain t ts' where t: "heap w p = Some t" "objects w ps = Some ts'"
    "ts = t # ts'" by (auto split: option.splits)
  let ?o = "put (put (put ofs pre) (toFileString t)) [CHR 0x0A]"
  from Cons.prems(1) have o: "\<not> ofailbit ?o" "obuf ?o = obuf ofs @ pre @ toFileString t @ [CHR 0x0A]"
    by (simp_all add: put_def)
  from Cons.IH [OF o(1) t(2)] t o(2) show ?case by (simp add: put_def Cons.prems(1))
qed

lemma saveToFile_writable:
  assumes "writable fs fn" "objects w (tasks w) = Some ts" "objects w (completedTasks w) = Some cs"
  shows "saveToFile fn w fs =
     Inr (fs\<lparr>files := (files fs)(fn \<mapsto> concat (map (\<lambda>l. l @ [CHR 0x0A]) (file_lines ts cs)))\<rparr>)"
proof -
  let ?o = "ofstream fs fn"
  from assms(1) have g: "\<not> ofailbit ?o" "obuf ?o = []" by (simp_all add: ofstream_def)
  note s1 = save_loop_good [OF g(1) assms(2), of "[]"]
  let ?o1 = "?o\<lparr>obuf := obuf ?o @ concat (map (\<lambda>t. ([] @ toFileString t) @ [CHR 0x0A]) ts)\<rparr>"
  from g(1) have g1: "\<not> ofailbit ?o1" by simp
  note s2 = save_loop_good [OF g1 assms(3), of "''DONE:''"]
  show ?thesis
    unfolding saveToFile_def s1 sum.case s2
    by (simp add: close_def g file_lines_def comp_def)
qed

lemma objects_cong:
  "\<forall>p\<in>set ps. heap w' p = heap w p \<Longrightarrow> objects w' ps = objects w ps"
  by (induction ps) (auto split: option.splits)

lemma objects_snoc:
  "objects w ps = Some a \<Longrightarrow> heap w p = Some t \<Longrightarrow> objects w (ps @ [p]) = Some (a @ [t])"
  by (induction ps arbitrary: a) (auto split: option.splits)

lemma new_addTask:
  "(case new x w of (p, w') \<Rightarrow> addTask p w') =
     Inr (w\<lparr>heap := (heap w)(next_addr w \<mapsto> x), next_addr := Suc (next_addr w),
            tasks := tasks w @ [next_addr w],
            titleMap := (titleMap w)(getTitle x \<mapsto> next_addr w),
            categories := (if getCategory x \<noteq> [] then insert (getCategory x) (categories w)
                           else categories w)\<rparr>)"
  by (simp add: new_def addTask_def)

lemma new_done:
  "(case new x w of (p, w') \<Rightarrow> Inr (w'\<lparr>completedTasks := completedTasks w' @ [p]\<rparr>)) =
     Inr (w\<lparr>heap := (heap w)(next_addr w \<mapsto> x), next_addr := Suc (next_addr w),
            completedTasks := completedTasks w @ [next_addr w]\<rparr>)"
  by (simp add: new_def)

lemma getCategory_reloaded [simp]: "getCategory (reloaded t) = getCategory t"
  by (simp add: reloaded_def)

lemma load_active_lines:
  assumes "below w" "objects w (tasks w) = Some a" "objects w (completedTasks w) = Some c"
    "\<forall>t\<in>set ts. storable t \<and> \<not> prefix ''DONE:'' (getTitle t)"
  shows "\<exists>w'. load_lines (map toFileString ts) w = Inr w' \<and> below w'
           \<and> objects w' (tasks w') = Some (a @ map reloaded ts)
           \<and> objects w' (completedTasks w') = Some c
           \<and> categories w' = categories w \<union> {k \<in> getCategory ` set ts. k \<noteq> []}"
  using assms
proof (induction ts arbitrary: w a)
  case Nil
  then show ?case by simp
next
  case (Cons t ts)
  let ?n = "next_addr w"
  let ?w1 = "w\<lparr>heap := (heap w)(?n \<mapsto> reloaded t), next_addr := Suc ?n,
            tasks := tasks w @ [?n],
            titleMap := (titleMap w)(getTitle (reloaded t) \<mapsto> ?n),
            categories := (if getCategory (reloaded t) \<noteq> [] then
                insert (getCategory (reloaded t)) (categories w) else categories w)\<rparr>"
  from Cons.prems(4) have t: "storable t" "\<not> prefix ''DONE:'' (getTitle t)" by simp_all
  have l: "load_line (toFileString t) w = Inr ?w1"
    by (simp only: load_line_active [OF t] new_addTask)
  from Cons.prems(1) have f: "?n \<notin> set (tasks w)" "?n \<notin> set (completedTasks w)"
    by (auto simp: below_def)
  have b1: "below ?w1" using Cons.prems(1) by (auto simp: below_def less_Suc_eq)
  have "objects ?w1 (tasks w) = objects w (tasks w)"
    by (rule objects_cong) (use f in auto)
  with Cons.prems(2) have "objects ?w1 (tasks w) = Some a" by simp
  from objects_snoc [OF this, of ?n "reloaded t"]
  have o1: "objects ?w1 (tasks ?w1) = Some ((a @ [reloaded t]))" by simp
  have "objects ?w1 (completedTasks w) = objects w (completedTasks w)"
    by (rule objects_cong) (use f in auto)
  with Cons.prems(3) have c1: "objects ?w1 (completedTasks ?w1) = Some c" by simp
  from Cons.prems(4) have r: "\<forall>t\<in>set ts. storable t \<and> \<not> prefix ''DONE:'' (getTitle t)" by simp
  from Cons.IH [OF b1 o1 c1 r] obtain w' where w': "load_lines (map toFileString ts) ?w1 = Inr w'"
    "below w'" "objects w' (tasks w') = Some ((a @ [reloaded t]) @ map reloaded ts)"
    "objects w' (completedTasks w') = Some c"
    "categories w' = categories ?w1 \<union> {k \<in> getCategory ` set ts. k \<noteq> []}" by blast
  have k: "categories w' = categories w \<union> {k \<in> getCategory ` set (t # ts). k \<noteq> []}"
    using w'(5) by auto
  from l w'(1-4) k show ?case by simp
qed

lemma load_done_lines:
  assumes "below w" "objects w (tasks w) = Some a" "objects w (completedTasks w) = Some c"
    "\<forall>t\<in>set cs. storable t"
  shows "\<exists>w'. load_lines (map (\<lambda>t. ''DONE:'' @ toFileString t) cs) w = Inr w' \<and> below w'
           \<and> objects w' (tasks w') = Some a
           \<and> objects w' (completedTasks w') = Some (c @ map reloaded cs)
           \<and> categories w' = categories w"
  using assms
proof (induction cs arbitrary: w c)
  case Nil
  then show ?case by simp
next
  case (Cons t cs)
  let ?n = "next_addr w"
  let ?w1 = "w\<lparr>heap := (heap w)(?n \<mapsto> reloaded t), next_addr := Suc ?n,
            completedTasks := completedTasks w @ [?n]\<rparr>"
  from Cons.prems(4) have t: "storable t" by simp
  have l: "load_line (''DONE:'' @ toFileString t) w = Inr ?w1"
    by (simp only: load_line_done [OF t] new_done)
  from Cons.prems(1) have f: "?n \<notin> set (tasks w)" "?n \<notin> set (completedTasks w)"
    by (auto simp: below_def)
  have b1: "below ?w1" using Cons.prems(1) by (auto simp: below_def less_Suc_eq)
  have "objects ?w1 (tasks w) = objects w (tasks w)"
    by (rule objects_cong) (use f in auto)
  with Cons.prems(2) have o1: "objects ?w1 (tasks ?w1) = Some a" by simp
  have "objects ?w1 (completedTasks w) = objects w (completedTasks w)"
    by (rule objects_cong) (use f in auto)
  with Cons.prems(3) have "objects ?w1 (completedTasks w) = Some c" by simp
  from objects_snoc [OF this, of ?n "reloaded t"]
  have c1: "objects ?w1 (completedTasks ?w1) = Some (c @ [reloaded t])" by simp
  from Cons.prems(4) have r: "\<forall>t\<in>set cs. storable t" by simp
  from Cons.IH [OF b1 o1 c1 r] obtain w' where
    w': "load_lines (map (\<lambda>t. ''DONE:'' @ toFileString t) cs) ?w1 = Inr w'"
    "below w'" "objects w' (tasks w') = Some a"
    "objects w' (completedTasks w') = Some ((c @ [reloaded t]) @ map reloaded cs)"
    "categories w' = categories ?w1" by blast
  from l w' show ?case by simp
qed

lemma storable_line: "storable t \<Longrightarrow> CHR 0x0A \<notin> set (toFileString t)"
  by (cases t) (auto simp: storable_def plain_text_def)

lemma below_init: "below init"
  by (simp add: below_def init_def)

text \<open>
  C1, as the code has it. Let the path be writable, let \<open>ts\<close> and \<open>cs\<close> be the active and
  the completed records, let no title, deadline or category of them hold a semicolon or
  a line end, and let no active title start with \<open>DONE:\<close>. Then saving returns, loading
  the saved file into the empty manager returns, and the active records and the completed
  records of the result have, in the same order, the titles, deadlines, flags and
  categories of \<open>ts\<close> and of \<open>cs\<close>. The category set of the result is the set of the
  categories of the active records that are not empty.
\<close>

theorem save_load_roundtrip:
  assumes "writable fs fn"
    and "objects w (tasks w) = Some ts" and "objects w (completedTasks w) = Some cs"
    and "\<forall>t\<in>set ts. storable t \<and> \<not> prefix ''DONE:'' (getTitle t)"
    and "\<forall>t\<in>set cs. storable t"
  shows "\<exists>fs' w' ts' cs'. saveToFile fn w fs = Inr fs' \<and> loadFromFile fn fs' init = Inr w'
           \<and> objects w' (tasks w') = Some ts' \<and> map fields ts' = map fields ts
           \<and> objects w' (completedTasks w') = Some cs' \<and> map fields cs' = map fields cs
           \<and> categories w' = {k \<in> getCategory ` set ts. k \<noteq> []}"
proof -
  let ?text = "concat (map (\<lambda>l. l @ [CHR 0x0A]) (file_lines ts cs))"
  let ?fs = "fs\<lparr>files := (files fs)(fn \<mapsto> ?text)\<rparr>"
  have s: "saveToFile fn w fs = Inr ?fs" by (rule saveToFile_writable [OF assms(1-3)])
  have nl: "\<forall>l\<in>set (file_lines ts cs). CHR 0x0A \<notin> set l"
    using assms(4,5) by (auto simp: file_lines_def storable_line)
  have l: "loadFromFile fn ?fs init = load_lines (file_lines ts cs) init"
    by (simp add: loadFromFile_def ifstream_def loop_lines [OF nl])
  have i: "objects init (tasks init) = Some []" "objects init (completedTasks init) = Some []"
    by (simp_all add: init_def)
  from load_active_lines [OF below_init i assms(4)] obtain w1 where
    1: "load_lines (map toFileString ts) init = Inr w1" "below w1"
    "objects w1 (tasks w1) = Some ([] @ map reloaded ts)" "objects w1 (completedTasks w1) = Some []"
    "categories w1 = categories init \<union> {k \<in> getCategory ` set ts. k \<noteq> []}" by blast
  from load_done_lines [OF 1(2,3,4) assms(5)] obtain w2 where
    2: "load_lines (map (\<lambda>t. ''DONE:'' @ toFileString t) cs) w1 = Inr w2"
    "objects w2 (tasks w2) = Some ([] @ map reloaded ts)"
    "objects w2 (completedTasks w2) = Some ([] @ map reloaded cs)"
    "categories w2 = categories w1" by blast
  have ll: "load_lines (file_lines ts cs) init = Inr w2"
    unfolding file_lines_def load_lines_append 1(1) sum.case by (rule 2(1))
  have r: "loadFromFile fn ?fs init = Inr w2"
    by (rule trans [OF l ll])
  have f: "map fields (map reloaded ts) = map fields ts" "map fields (map reloaded cs) = map fields cs"
    by simp_all
  have k: "categories w2 = {k \<in> getCategory ` set ts. k \<noteq> []}"
    by (simp add: 2(4) 1(5) init_def)
  from s r 2(2,3) f k show ?thesis
    by (intro exI [of _ ?fs] exI [of _ w2] exI [of _ "map reloaded ts"]
          exI [of _ "map reloaded cs"]) simp
qed

theorem save_load_roundtrip_witness:
  "writable \<lparr>files = Map.empty, writable = (\<lambda>p. True)\<rparr> ''tasks.txt''
   \<and> storable (CategorizedTask ''Report'' ''10.10.2024'' ''Work'' False)
   \<and> \<not> prefix ''DONE:'' ''Report''
   \<and> storable (Task ''Call'' ''1.1.2025'' True)
   \<and> (\<exists>fs' w'. saveToFile ''tasks.txt''
           \<lparr>heap = [0 \<mapsto> CategorizedTask ''Report'' ''10.10.2024'' ''Work'' False,
                    1 \<mapsto> Task ''Call'' ''1.1.2025'' True],
             next_addr = 2, tasks = [0], completedTasks = [1],
             titleMap = [''Report'' \<mapsto> 0], categories = {''Work''}\<rparr>
           \<lparr>files = Map.empty, writable = (\<lambda>p. True)\<rparr> = Inr fs'
         \<and> loadFromFile ''tasks.txt'' fs' init = Inr w'
         \<and> (\<exists>ts'. objects w' (tasks w') = Some ts'
               \<and> map fields ts' = [(''Report'', ''10.10.2024'', False, ''Work'')])
         \<and> (\<exists>cs'. objects w' (completedTasks w') = Some cs'
               \<and> map fields cs' = [(''Call'', ''1.1.2025'', True, [])])
         \<and> categories w' = {''Work''})"
proof -
  let ?W = "\<lparr>heap = [0 \<mapsto> CategorizedTask ''Report'' ''10.10.2024'' ''Work'' False,
                    1 \<mapsto> Task ''Call'' ''1.1.2025'' True],
             next_addr = 2, tasks = [0], completedTasks = [1],
             titleMap = [''Report'' \<mapsto> 0], categories = {''Work''}\<rparr>"
  let ?FS = "\<lparr>files = Map.empty, writable = (\<lambda>p. True)\<rparr>"
  let ?A = "CategorizedTask ''Report'' ''10.10.2024'' ''Work'' False"
  let ?C = "Task ''Call'' ''1.1.2025'' True"
  have h1: "writable ?FS ''tasks.txt''" by simp
  have h2: "objects ?W (tasks ?W) = Some [?A]" by simp
  have h3: "objects ?W (completedTasks ?W) = Some [?C]" by simp
  have s: "storable ?A" "\<not> prefix ''DONE:'' ''Report''" "storable ?C"
    by (simp_all add: storable_def plain_text_def)
  from s have h4: "\<forall>t\<in>set [?A]. storable t \<and> \<not> prefix ''DONE:'' (getTitle t)" by simp
  from s have h5: "\<forall>t\<in>set [?C]. storable t" by simp
  from save_load_roundtrip [OF h1 h2 h3 h4 h5] obtain fs' w' ts' cs' where
    r: "saveToFile ''tasks.txt'' ?W ?FS = Inr fs'" "loadFromFile ''tasks.txt'' fs' init = Inr w'"
    "objects w' (tasks w') = Some ts'" "map fields ts' = map fields [?A]"
    "objects w' (completedTasks w') = Some cs'" "map fields cs' = map fields [?C]"
    "categories w' = {k \<in> getCategory ` set [?A]. k \<noteq> []}" by blast
  have f: "map fields [?A] = [(''Report'', ''10.10.2024'', False, ''Work'')]"
    "map fields [?C] = [(''Call'', ''1.1.2025'', True, [])]"
    by (simp_all add: fields_def)
  have k: "{k \<in> getCategory ` set [?A]. k \<noteq> []} = {''Work''}" by auto
  from r f k have "\<exists>fs' w'. saveToFile ''tasks.txt'' ?W ?FS = Inr fs'
         \<and> loadFromFile ''tasks.txt'' fs' init = Inr w'
         \<and> (\<exists>ts'. objects w' (tasks w') = Some ts'
               \<and> map fields ts' = [(''Report'', ''10.10.2024'', False, ''Work'')])
         \<and> (\<exists>cs'. objects w' (completedTasks w') = Some cs'
               \<and> map fields cs' = [(''Call'', ''1.1.2025'', True, [])])
         \<and> categories w' = {''Work''}"
    by (intro exI conjI) simp_all
  with h1 s show ?thesis by blast
qed

lemma semicolon_run:
  "run [Add ''Buy milk; eggs'' ''01.01.2025'' []] init =
     Inr \<lparr>heap = [0 \<mapsto> Task ''Buy milk; eggs'' ''01.01.2025'' False], next_addr = 1,
           tasks = [0], completedTasks = [], titleMap = [''Buy milk; eggs'' \<mapsto> 0],
           categories = {}\<rparr>"
  by (simp add: exec_Add init_def menu_task_def)

lemma semicolon_save:
  "saveToFile ''tasks.txt''
     \<lparr>heap = [0 \<mapsto> Task ''Buy milk; eggs'' ''01.01.2025'' False], next_addr = 1,
       tasks = [0], completedTasks = [], titleMap = [''Buy milk; eggs'' \<mapsto> 0],
       categories = {}\<rparr>
     \<lparr>files = Map.empty, writable = (\<lambda>p. True)\<rparr> =
   Inr \<lparr>files = [''tasks.txt'' \<mapsto> ''Buy milk; eggs;01.01.2025;0'' @ [CHR 0x0A]],
         writable = (\<lambda>p. True)\<rparr>"
  by (simp add: saveToFile_def ofstream_def put_def close_def)

lemma semicolon_load:
  "loadFromFile ''tasks.txt''
     \<lparr>files = [''tasks.txt'' \<mapsto> ''Buy milk; eggs;01.01.2025;0'' @ [CHR 0x0A]],
       writable = (\<lambda>p. True)\<rparr> init =
   Inr \<lparr>heap = [0 \<mapsto> CategorizedTask ''Buy milk'' '' eggs'' ''0'' False], next_addr = 1,
         tasks = [0], completedTasks = [], titleMap = [''Buy milk'' \<mapsto> 0],
         categories = {''0''}\<rparr>"
  by (simp add: loadFromFile_def ifstream_def loadFromFile_loop.simps getline_def load_line_def
        istringstream_def new_def addTask_def init_def)

text \<open>
  C1 as it is written fails, since it speaks of any store: a task with the title
  \<open>Buy milk; eggs\<close> is saved as the line \<open>Buy milk; eggs;01.01.2025;0\<close> and comes back
  with the title \<open>Buy milk\<close>, the deadline \<open> eggs\<close> and the category \<open>0\<close>.
\<close>

theorem save_load_changes_title_with_semicolon:
  "(case run [Add ''Buy milk; eggs'' ''01.01.2025'' []] init of
      Inl e \<Rightarrow> False
    | Inr w \<Rightarrow>
       (case saveToFile ''tasks.txt'' w \<lparr>files = Map.empty, writable = (\<lambda>p. True)\<rparr> of
          Inl e \<Rightarrow> False
        | Inr fs' \<Rightarrow>
           (case loadFromFile ''tasks.txt'' fs' init of
              Inl e \<Rightarrow> False
            | Inr w' \<Rightarrow>
                objects w (tasks w) = Some [Task ''Buy milk; eggs'' ''01.01.2025'' False]
                \<and> objects w' (tasks w')
                     = Some [CategorizedTask ''Buy milk'' '' eggs'' ''0'' False])))"
  unfolding semicolon_run sum.case semicolon_save semicolon_load by simp

end
